theory Spec2Isabelle
  imports Main
begin

section \<open>Common conventions\<close>

text \<open>
  The two packages \<^verbatim>\<open>ttl\<close> and \<^verbatim>\<open>lru\<close> declare the same names (\<^verbatim>\<open>cacheEntry\<close>,
  \<^verbatim>\<open>Cache\<close>, \<^verbatim>\<open>Get\<close>, \<^verbatim>\<open>Set\<close>, \<^verbatim>\<open>Do\<close>, ...); here every name carries its package as a
  prefix.

  \<^item> The embedding is sequential. The field \<^verbatim>\<open>m *sync.RWMutex\<close> and the calls
    \<^verbatim>\<open>Lock\<close>/\<^verbatim>\<open>RLock\<close>/\<^verbatim>\<open>Unlock\<close> are left out, so \<^verbatim>\<open>Get\<close> is \<^verbatim>\<open>unsafeGet\<close> and
    \<^verbatim>\<open>Set\<close> is \<^verbatim>\<open>unsafeSet\<close>.
  \<^item> Go mutates the receiver in place; every operation here returns the store it leaves.
  \<^item> \<^verbatim>\<open>var zero V\<close> is the \<open>0\<close> of the value type (class \<open>zero\<close>).
  \<^item> An \<^verbatim>\<open>error\<close> is an \<open>'e option\<close>: \<^verbatim>\<open>nil\<close> is \<open>None\<close>.
  \<^item> The producer \<^verbatim>\<open>fn func() (V, error)\<close> is a Go closure, which may have effects; it is
    a function on a state \<open>'w\<close> of the caller, returning its result and the new state. What
    \<^verbatim>\<open>Do\<close> leaves of that state tells how often \<^verbatim>\<open>fn\<close> ran.
  \<^item> \<^verbatim>\<open>time.Time\<close> is a point of one integer time line (nanoseconds), \<^verbatim>\<open>time.Duration\<close> an
    integer, \<^verbatim>\<open>t.Add(d)\<close> is \<open>t + d\<close> and \<^verbatim>\<open>t.After(u)\<close> is \<open>u < t\<close>. Every call of
    \<^verbatim>\<open>time.Now()\<close> in the source is an argument of the operation that makes it.
  \<^item> An \<^verbatim>\<open>iter.Seq2[K, V]\<close> is the finite list of the pairs it yields.
\<close>

type_synonym ('v, 'e, 'w) producer = "'w \<Rightarrow> ('v \<times> 'e option) \<times> 'w"

section \<open>Package ttl\<close>

record 'v ttl_cacheEntry =
  ttl_value :: 'v
  ttl_expireAt :: int

record ('k, 'v) ttl_Cache =
  ttl_data :: "'k \<rightharpoonup> 'v ttl_cacheEntry"
  ttl_ttl :: int

definition ttl_New :: "int \<Rightarrow> ('k, 'v) ttl_Cache" where
  "ttl_New ttl = \<lparr>ttl_data = Map.empty, ttl_ttl = ttl\<rparr>"

definition ttl_unsafeGet ::
  "('k, 'v::zero) ttl_Cache \<Rightarrow> 'k \<Rightarrow> int \<Rightarrow> ('v \<times> bool) \<times> ('k, 'v) ttl_Cache" where
  "ttl_unsafeGet c key now =
     (case ttl_data c key of
        None \<Rightarrow> ((0, False), c)
      | Some entry \<Rightarrow>
          if ttl_expireAt entry < now then ((0, False), c)
          else ((ttl_value entry, True), c))"

definition ttl_Get ::
  "('k, 'v::zero) ttl_Cache \<Rightarrow> 'k \<Rightarrow> int \<Rightarrow> ('v \<times> bool) \<times> ('k, 'v) ttl_Cache" where
  "ttl_Get c key now = ttl_unsafeGet c key now"

definition ttl_unsafeSet :: "('k, 'v) ttl_Cache \<Rightarrow> 'k \<Rightarrow> 'v \<Rightarrow> int \<Rightarrow> ('k, 'v) ttl_Cache" where
  "ttl_unsafeSet c key v now =
     c\<lparr>ttl_data := (ttl_data c)(key \<mapsto> \<lparr>ttl_value = v, ttl_expireAt = now + ttl_ttl c\<rparr>)\<rparr>"

definition ttl_Set :: "('k, 'v) ttl_Cache \<Rightarrow> 'k \<Rightarrow> 'v \<Rightarrow> int \<Rightarrow> ('k, 'v) ttl_Cache" where
  "ttl_Set c key v now = ttl_unsafeSet c key v now"

definition ttl_Delete :: "('k, 'v) ttl_Cache \<Rightarrow> 'k \<Rightarrow> ('k, 'v) ttl_Cache" where
  "ttl_Delete c key = c\<lparr>ttl_data := (ttl_data c)(key := None)\<rparr>"

text \<open>
  \<^verbatim>\<open>Do\<close> reads the clock up to three times: in \<^verbatim>\<open>c.Get\<close> (\<open>t1\<close>), in the second
  \<^verbatim>\<open>unsafeGet\<close> (\<open>t2\<close>) and in \<^verbatim>\<open>unsafeSet\<close> (\<open>t3\<close>). It returns the pair
  \<^verbatim>\<open>(value, err)\<close>, the store and the caller's state.
\<close>

definition ttl_Do ::
  "('k, 'v::zero) ttl_Cache \<Rightarrow> 'k \<Rightarrow> ('v, 'e, 'w) producer \<Rightarrow> int \<Rightarrow> int \<Rightarrow> int \<Rightarrow> 'w
     \<Rightarrow> ('v \<times> 'e option) \<times> ('k, 'v) ttl_Cache \<times> 'w" where
  "ttl_Do c key fn t1 t2 t3 w =
     (case ttl_Get c key t1 of
        ((v, True), c1) \<Rightarrow> ((v, None), c1, w)
      | ((v, False), c1) \<Rightarrow>
          (case ttl_unsafeGet c1 key t2 of
             ((v, True), c2) \<Rightarrow> ((v, None), c2, w)
           | ((v, False), c2) \<Rightarrow>
               (case fn w of
                  ((v, Some e), w') \<Rightarrow> ((v, Some e), c2, w')
                | ((v, None), w') \<Rightarrow> ((v, None), ttl_unsafeSet c2 key v t3, w'))))"

text \<open>
  The loop of \<^verbatim>\<open>SetFromIter\<close> calls \<^verbatim>\<open>unsafeSet\<close>, hence \<^verbatim>\<open>time.Now()\<close>, once for each
  pair: \<open>now i\<close> is the clock read in the iteration that is \<open>i\<close> steps ahead.
\<close>

fun ttl_SetFromIter ::
  "('k, 'v) ttl_Cache \<Rightarrow> ('k \<times> 'v) list \<Rightarrow> (nat \<Rightarrow> int) \<Rightarrow> ('k, 'v) ttl_Cache" where
  "ttl_SetFromIter c [] now = c"
| "ttl_SetFromIter c ((key, v) # rest) now =
     ttl_SetFromIter (ttl_unsafeSet c key v (now 0)) rest (\<lambda>i. now (Suc i))"

text \<open>
  \<^verbatim>\<open>SetFromMap\<close> passes \<^verbatim>\<open>maps.All(data)\<close> on: the pairs of the Go map, each key once, in
  an order Go leaves open. The argument \<open>order\<close> is that enumeration.
\<close>

definition ttl_SetFromMap ::
  "('k, 'v) ttl_Cache \<Rightarrow> ('k \<times> 'v) list \<Rightarrow> (nat \<Rightarrow> int) \<Rightarrow> ('k, 'v) ttl_Cache" where
  "ttl_SetFromMap c order now = ttl_SetFromIter c order now"

section \<open>The list container\<close>

text \<open>
  Package \<^verbatim>\<open>internal/container/list\<close> is imported by package \<^verbatim>\<open>lru\<close>; its source is
  missing, and the spec describes it as an ordered structure with front-insertion, removal
  and move-to-front given a node handle. A list is the HOL list of its values from front
  to back, and an \<^verbatim>\<open>*Element\<close> is the position of a value in it (\<^verbatim>\<open>nil\<close> is \<open>None\<close>).
\<close>

text \<open>Modelled from the spec: \<^verbatim>\<open>list.New\<close>, which is missing; the list starts empty.\<close>

definition list_New :: "'a list" where
  "list_New = []"

text \<open>Modelled from the spec: \<^verbatim>\<open>List.Front\<close>, which is missing; the first element, \<^verbatim>\<open>nil\<close>
  for the empty list.\<close>

definition list_Front :: "'a list \<Rightarrow> nat option" where
  "list_Front xs = (if xs = [] then None else Some 0)"

text \<open>Modelled from the spec: \<^verbatim>\<open>Element.Next\<close>, which is missing; the neighbour towards
  the back, \<^verbatim>\<open>nil\<close> after the last element.\<close>

definition list_Next :: "'a list \<Rightarrow> nat \<Rightarrow> nat option" where
  "list_Next xs i = (if Suc i < length xs then Some (Suc i) else None)"

text \<open>Modelled from the spec: \<^verbatim>\<open>List.MoveToFront\<close>, which is missing; move-to-front given a
  node handle, the other elements keeping their order.\<close>

definition list_MoveToFront :: "'a list \<Rightarrow> nat \<Rightarrow> 'a list" where
  "list_MoveToFront xs i =
     (if i < length xs then xs ! i # take i xs @ drop (Suc i) xs else xs)"

text \<open>Modelled from the spec: \<^verbatim>\<open>List.InsertBefore\<close>, which is missing. The store calls it
  with the front element as the mark, and with \<^verbatim>\<open>nil\<close> when the list is empty; the spec
  has the store insert a new node at the front on every miss, so a \<^verbatim>\<open>nil\<close> mark inserts
  at the front too.\<close>

definition list_InsertBefore :: "'a list \<Rightarrow> 'a \<Rightarrow> nat option \<Rightarrow> 'a list" where
  "list_InsertBefore xs v mark =
     (case mark of
        None \<Rightarrow> v # xs
      | Some i \<Rightarrow> take i xs @ v # drop i xs)"

text \<open>Modelled from the spec: \<^verbatim>\<open>List.Remove\<close>, which is missing; removal given a node
  handle.\<close>

definition list_Remove :: "'a list \<Rightarrow> nat \<Rightarrow> 'a list" where
  "list_Remove xs i = take i xs @ drop (Suc i) xs"

section \<open>Package lru\<close>

record ('k, 'v) lru_cacheEntry =
  lru_key :: 'k
  lru_value :: 'v

record ('k, 'v) lru_Cache =
  lru_entries :: "('k, 'v) lru_cacheEntry list"

text \<open>The parameter \<^verbatim>\<open>ttl time.Duration\<close> of \<^verbatim>\<open>New\<close> is not used in its body.\<close>

definition lru_New :: "int \<Rightarrow> ('k, 'v) lru_Cache" where
  "lru_New ttl = \<lparr>lru_entries = list_New\<rparr>"

text \<open>The loop \<^verbatim>\<open>for cur := root; cur != nil; cur = cur.Next()\<close> of \<^verbatim>\<open>findEntry\<close>.
  The handles it visits come from \<^verbatim>\<open>Front\<close> and \<^verbatim>\<open>Next\<close>, so they are positions of the
  list; for any other number the function gives \<^verbatim>\<open>nil\<close>.\<close>

function lru_findEntry_loop :: "('k, 'v) lru_Cache \<Rightarrow> 'k \<Rightarrow> nat option \<Rightarrow> nat option" where
  "lru_findEntry_loop c key None = None"
| "lru_findEntry_loop c key (Some cur) =
     (if length (lru_entries c) \<le> cur then None
      else if lru_key (lru_entries c ! cur) = key then Some cur
      else lru_findEntry_loop c key (list_Next (lru_entries c) cur))"
  by pat_completeness auto
termination
  by (relation "measure (\<lambda>(c, key, cur). case cur of None \<Rightarrow> 0
                                          | Some i \<Rightarrow> Suc (length (lru_entries c) - i))")
     (auto simp: list_Next_def split: if_splits)

definition lru_findEntry :: "('k, 'v) lru_Cache \<Rightarrow> 'k \<Rightarrow> nat option" where
  "lru_findEntry c key =
     (case list_Front (lru_entries c) of
        None \<Rightarrow> None
      | Some root \<Rightarrow> lru_findEntry_loop c key (Some root))"

text \<open>\<^verbatim>\<open>entry.Value.value\<close> is read off the element found, which \<^verbatim>\<open>MoveToFront\<close> moves
  and does not change.\<close>

definition lru_unsafeGet ::
  "('k, 'v::zero) lru_Cache \<Rightarrow> 'k \<Rightarrow> ('v \<times> bool) \<times> ('k, 'v) lru_Cache" where
  "lru_unsafeGet c key =
     (case list_Front (lru_entries c) of
        None \<Rightarrow> ((0, False), c)
      | Some root \<Rightarrow>
          (case lru_findEntry c key of
             None \<Rightarrow> ((0, False), c)
           | Some entry \<Rightarrow>
               ((lru_value (lru_entries c ! entry), True),
                c\<lparr>lru_entries := list_MoveToFront (lru_entries c) entry\<rparr>)))"

definition lru_Get ::
  "('k, 'v::zero) lru_Cache \<Rightarrow> 'k \<Rightarrow> ('v \<times> bool) \<times> ('k, 'v) lru_Cache" where
  "lru_Get c key = lru_unsafeGet c key"

definition lru_unsafeSet :: "('k, 'v) lru_Cache \<Rightarrow> 'k \<Rightarrow> 'v \<Rightarrow> ('k, 'v) lru_Cache" where
  "lru_unsafeSet c key v =
     (case lru_findEntry c key of
        Some entry \<Rightarrow>
          c\<lparr>lru_entries :=
              list_MoveToFront
                ((lru_entries c)[entry := (lru_entries c ! entry)\<lparr>lru_value := v\<rparr>]) entry\<rparr>
      | None \<Rightarrow>
          c\<lparr>lru_entries :=
              list_InsertBefore (lru_entries c) \<lparr>lru_key = key, lru_value = v\<rparr>
                (list_Front (lru_entries c))\<rparr>)"

definition lru_Set :: "('k, 'v) lru_Cache \<Rightarrow> 'k \<Rightarrow> 'v \<Rightarrow> ('k, 'v) lru_Cache" where
  "lru_Set c key v = lru_unsafeSet c key v"

definition lru_Delete :: "('k, 'v) lru_Cache \<Rightarrow> 'k \<Rightarrow> ('k, 'v) lru_Cache" where
  "lru_Delete c key =
     (case lru_findEntry c key of
        Some entry \<Rightarrow> c\<lparr>lru_entries := list_Remove (lru_entries c) entry\<rparr>
      | None \<Rightarrow> c)"

fun lru_SetFromIter :: "('k, 'v) lru_Cache \<Rightarrow> ('k \<times> 'v) list \<Rightarrow> ('k, 'v) lru_Cache" where
  "lru_SetFromIter c [] = c"
| "lru_SetFromIter c ((k, v) # rest) = lru_SetFromIter (lru_unsafeSet c k v) rest"

definition lru_SetFromMap :: "('k, 'v) lru_Cache \<Rightarrow> ('k \<times> 'v) list \<Rightarrow> ('k, 'v) lru_Cache" where
  "lru_SetFromMap c order = lru_SetFromIter c order"

definition lru_Do ::
  "('k, 'v::zero) lru_Cache \<Rightarrow> 'k \<Rightarrow> ('v, 'e, 'w) producer \<Rightarrow> 'w
     \<Rightarrow> ('v \<times> 'e option) \<times> ('k, 'v) lru_Cache \<times> 'w" where
  "lru_Do c key fn w =
     (case lru_Get c key of
        ((v, True), c1) \<Rightarrow> ((v, None), c1, w)
      | ((v, False), c1) \<Rightarrow>
          (case lru_unsafeGet c1 key of
             ((v, True), c2) \<Rightarrow> ((v, None), c2, w)
           | ((v, False), c2) \<Rightarrow>
               (case fn w of
                  ((v, Some e), w') \<Rightarrow> ((v, Some e), c2, w')
                | ((v, None), w') \<Rightarrow> ((v, None), lru_unsafeSet c2 key v, w'))))"

section \<open>Notions used to state the properties\<close>

text \<open>The keys of the Recency Store from front to back, and the value it holds for a key.\<close>

definition lru_keys :: "('k, 'v) lru_Cache \<Rightarrow> 'k list" where
  "lru_keys c = map lru_key (lru_entries c)"

definition lru_pair :: "('k, 'v) lru_cacheEntry \<Rightarrow> 'k \<times> 'v" where
  "lru_pair e = (lru_key e, lru_value e)"

definition lru_lookup :: "('k, 'v) lru_Cache \<Rightarrow> 'k \<rightharpoonup> 'v" where
  "lru_lookup c = map_of (map lru_pair (lru_entries c))"

text \<open>A sequence of \<^verbatim>\<open>Set\<close> calls, one after the other; for the TTL Store each call comes
  with the time at which it reads the clock.\<close>

definition lru_Sets :: "('k, 'v) lru_Cache \<Rightarrow> ('k \<times> 'v) list \<Rightarrow> ('k, 'v) lru_Cache" where
  "lru_Sets c kvs = foldl (\<lambda>c' (k, v). lru_Set c' k v) c kvs"

definition ttl_Sets ::
  "('k, 'v) ttl_Cache \<Rightarrow> ('k \<times> 'v \<times> int) list \<Rightarrow> ('k, 'v) ttl_Cache" where
  "ttl_Sets c kvts = foldl (\<lambda>c' (k, v, t). ttl_Set c' k v t) c kvts"

text \<open>What the most recent call for a key in such a sequence wrote, if there is one.\<close>

definition last_Set :: "('k \<times> 'a) list \<Rightarrow> 'k \<rightharpoonup> 'a" where
  "last_Set kvs = map_of (rev kvs)"

text \<open>The pairs of a sequence, each with the clock reading of its iteration.\<close>

definition stamp :: "(nat \<Rightarrow> int) \<Rightarrow> ('k \<times> 'v) list \<Rightarrow> ('k \<times> 'v \<times> int) list" where
  "stamp now kvs = map (\<lambda>(i, (k, v)). (k, v, now i)) (enumerate 0 kvs)"

text \<open>Producers and a clock for the examples: a producer that counts its calls in the
  caller's state and succeeds, one that counts and fails, and a clock that stands still.\<close>

definition producer_ok :: "'v \<Rightarrow> ('v, string, nat) producer" where
  "producer_ok v w = ((v, None), Suc w)"

definition producer_err :: "'v \<Rightarrow> string \<Rightarrow> ('v, string, nat) producer" where
  "producer_err v e w = ((v, Some e), Suc w)"

definition clock_at :: "int \<Rightarrow> nat \<Rightarrow> int" where
  "clock_at t i = t"

section \<open>The scan of the Recency Store\<close>

declare lru_findEntry_loop.simps [simp del]

lemma loop_None:
  "(lru_findEntry_loop c key (Some i) = None) \<longleftrightarrow>
     (\<forall>j. i \<le> j \<and> j < length (lru_entries c) \<longrightarrow> lru_key (lru_entries c ! j) \<noteq> key)"
proof (induction c key "Some i :: nat option" arbitrary: i rule: lru_findEntry_loop.induct)
  case (2 c key cur)
  let ?xs = "lru_entries c"
  show ?case
  proof (cases "length ?xs \<le> cur")
    case True
    then show ?thesis by (auto simp: lru_findEntry_loop.simps)
  next
    case out: False
    show ?thesis
    proof (cases "lru_key (?xs ! cur) = key")
      case True
      with out show ?thesis by (auto simp: lru_findEntry_loop.simps)
    next
      case neq: False
      have split: "(\<forall>j. cur \<le> j \<and> j < length ?xs \<longrightarrow> lru_key (?xs ! j) \<noteq> key) \<longleftrightarrow>
                   (\<forall>j. Suc cur \<le> j \<and> j < length ?xs \<longrightarrow> lru_key (?xs ! j) \<noteq> key)"
        using neq by (metis Suc_leD Suc_leI le_neq_implies_less)
      show ?thesis
      proof (cases "Suc cur < length ?xs")
        case True
        then have nx: "list_Next ?xs cur = Some (Suc cur)" by (simp add: list_Next_def)
        from 2[OF out neq nx] out neq nx show ?thesis
          by (simp add: split lru_findEntry_loop.simps)
      next
        case False
        then have nx: "list_Next ?xs cur = None" by (simp add: list_Next_def)
        from False have "\<forall>j. \<not> (Suc cur \<le> j \<and> j < length ?xs)" by auto
        then have "\<forall>j. Suc cur \<le> j \<and> j < length ?xs \<longrightarrow> lru_key (?xs ! j) \<noteq> key" by blast
        with out neq nx show ?thesis by (simp add: split lru_findEntry_loop.simps)
      qed
    qed
  qed
qed

lemma loop_Some:
  "lru_findEntry_loop c key (Some i) = Some j \<Longrightarrow>
     i \<le> j \<and> j < length (lru_entries c) \<and> lru_key (lru_entries c ! j) = key \<and>
     (\<forall>j'. i \<le> j' \<and> j' < j \<longrightarrow> lru_key (lru_entries c ! j') \<noteq> key)"
proof (induction c key "Some i :: nat option" arbitrary: i rule: lru_findEntry_loop.induct)
  case (2 c key cur)
  let ?xs = "lru_entries c"
  from "2.prems" have out: "\<not> length ?xs \<le> cur"
    by (auto simp: lru_findEntry_loop.simps split: if_splits)
  show ?case
  proof (cases "lru_key (?xs ! cur) = key")
    case True
    with out "2.prems" show ?thesis by (auto simp: lru_findEntry_loop.simps)
  next
    case neq: False
    with out "2.prems" have rec: "lru_findEntry_loop c key (list_Next ?xs cur) = Some j"
      by (simp add: lru_findEntry_loop.simps)
    then have nx: "list_Next ?xs cur = Some (Suc cur)"
      by (cases "list_Next ?xs cur") (auto simp: list_Next_def lru_findEntry_loop.simps split: if_splits)
    from "2.hyps"[OF out neq nx] rec nx
    have ih: "Suc cur \<le> j \<and> j < length ?xs \<and> lru_key (?xs ! j) = key \<and>
              (\<forall>j'. Suc cur \<le> j' \<and> j' < j \<longrightarrow> lru_key (?xs ! j') \<noteq> key)" by simp
    then have "\<forall>j'. cur \<le> j' \<and> j' < j \<longrightarrow> lru_key (?xs ! j') \<noteq> key"
      using neq by (metis Suc_leI le_neq_implies_less)
    with ih show ?thesis by auto
  qed
qed

lemma findEntry_None: "(lru_findEntry c key = None) \<longleftrightarrow> key \<notin> set (lru_keys c)"
proof (cases "lru_entries c = []")
  case True
  then show ?thesis by (simp add: lru_findEntry_def list_Front_def lru_keys_def)
next
  case False
  then have "lru_findEntry c key = lru_findEntry_loop c key (Some 0)"
    by (simp add: lru_findEntry_def list_Front_def)
  moreover have "(\<forall>j. j < length (lru_entries c) \<longrightarrow> lru_key (lru_entries c ! j) \<noteq> key)
                 \<longleftrightarrow> key \<notin> lru_key ` set (lru_entries c)"
    by (metis (no_types, lifting) image_iff in_set_conv_nth nth_mem)
  ultimately show ?thesis
    by (simp add: loop_None lru_keys_def)
qed

lemma findEntry_Some:
  assumes "lru_findEntry c key = Some i"
  shows "i < length (lru_entries c)" and "lru_key (lru_entries c ! i) = key"
    and "key \<notin> lru_key ` set (take i (lru_entries c))"
proof -
  from assms have "lru_findEntry_loop c key (Some 0) = Some i"
    by (auto simp: lru_findEntry_def list_Front_def split: if_splits)
  from loop_Some[OF this]
  have a: "i < length (lru_entries c)" and b: "lru_key (lru_entries c ! i) = key"
    and c: "\<forall>j'. j' < i \<longrightarrow> lru_key (lru_entries c ! j') \<noteq> key" by auto
  show "i < length (lru_entries c)" by (rule a)
  show "lru_key (lru_entries c ! i) = key" by (rule b)
  show "key \<notin> lru_key ` set (take i (lru_entries c))"
  proof
    assume "key \<in> lru_key ` set (take i (lru_entries c))"
    then obtain e where e: "e \<in> set (take i (lru_entries c))" and k: "lru_key e = key" by auto
    from e obtain j where "j < length (take i (lru_entries c))" and "take i (lru_entries c) ! j = e"
      by (auto simp: in_set_conv_nth)
    with a have "j < i" and "lru_entries c ! j = e" by auto
    with c k show False by auto
  qed
qed

lemma findEntry_decomp:
  assumes "lru_findEntry c key = Some i"
  obtains ys e zs where "lru_entries c = ys @ e # zs" and "ys = take i (lru_entries c)"
    and "e = lru_entries c ! i" and "zs = drop (Suc i) (lru_entries c)"
    and "lru_key e = key" and "key \<notin> lru_key ` set ys" and "length ys = i"
proof -
  from findEntry_Some[OF assms]
  have a: "i < length (lru_entries c)" and b: "lru_key (lru_entries c ! i) = key"
    and n: "key \<notin> lru_key ` set (take i (lru_entries c))" by auto
  from a have "lru_entries c = take i (lru_entries c) @ lru_entries c ! i # drop (Suc i) (lru_entries c)"
    by (rule id_take_nth_drop)
  with a b n that show thesis by simp
qed

lemma findEntry_first:
  assumes "lru_entries c = ys @ e # zs" and "lru_key e = key" and "key \<notin> lru_key ` set ys"
  shows "lru_findEntry c key = Some (length ys)"
proof -
  from assms have "key \<in> set (lru_keys c)" by (auto simp: lru_keys_def)
  then obtain i where i: "lru_findEntry c key = Some i"
    using findEntry_None[of c key] by (cases "lru_findEntry c key") auto
  from findEntry_Some[OF i] have a: "i < length (lru_entries c)"
    and b: "lru_key (lru_entries c ! i) = key"
    and n: "key \<notin> lru_key ` set (take i (lru_entries c))" by auto
  have "i = length ys"
  proof (rule linorder_cases[of i "length ys"])
    assume "i < length ys"
    with assms(1) have "lru_entries c ! i = ys ! i" by (simp add: nth_append)
    with b assms(3) \<open>i < length ys\<close> show ?thesis by (metis image_eqI nth_mem)
  next
    assume "length ys < i"
    with assms(1) have "e \<in> set (take i (lru_entries c))"
      by (auto simp: take_Cons' split: if_splits)
    with n assms(2) show ?thesis by auto
  qed simp
  with i show ?thesis by simp
qed

lemma map_of_front:
  assumes "fst (f e) \<notin> fst ` f ` set ys"
  shows "map_of (map f (e # ys @ zs)) = map_of (map f (ys @ e # zs))"
proof
  fix k
  from assms have "map_of (map f ys) (fst (f e)) = None"
    by (simp add: map_of_eq_None_iff image_image)
  then show "map_of (map f (e # ys @ zs)) k = map_of (map f (ys @ e # zs)) k"
    by (cases "f e") (auto simp: map_add_def split: option.splits)
qed

lemma MoveToFront_decomp:
  "list_MoveToFront (ys @ e # zs) (length ys) = e # ys @ zs"
  by (simp add: list_MoveToFront_def)

lemma lru_unsafeGet_miss:
  assumes "key \<notin> set (lru_keys c)"
  shows "lru_unsafeGet c key = ((0, False), c)"
proof -
  from assms have "lru_findEntry c key = None" by (simp add: findEntry_None)
  then show ?thesis by (simp add: lru_unsafeGet_def split: option.splits)
qed

lemma lru_unsafeGet_hit:
  assumes "lru_entries c = ys @ e # zs" and "lru_key e = key" and "key \<notin> lru_key ` set ys"
  shows "lru_unsafeGet c key = ((lru_value e, True), c\<lparr>lru_entries := e # ys @ zs\<rparr>)"
  using assms findEntry_first[OF assms]
  by (simp add: lru_unsafeGet_def list_Front_def MoveToFront_decomp)

lemma lru_unsafeSet_miss:
  assumes "key \<notin> set (lru_keys c)"
  shows "lru_unsafeSet c key v =
           c\<lparr>lru_entries := \<lparr>lru_key = key, lru_value = v\<rparr> # lru_entries c\<rparr>"
proof -
  from assms have "lru_findEntry c key = None" by (simp add: findEntry_None)
  then show ?thesis
    by (simp add: lru_unsafeSet_def list_InsertBefore_def list_Front_def)
qed

lemma lru_unsafeSet_hit:
  assumes "lru_entries c = ys @ e # zs" and "lru_key e = key" and "key \<notin> lru_key ` set ys"
  shows "lru_unsafeSet c key v = c\<lparr>lru_entries := e\<lparr>lru_value := v\<rparr> # ys @ zs\<rparr>"
proof -
  have "(ys @ e # zs)[length ys := e\<lparr>lru_value := v\<rparr>] = ys @ e\<lparr>lru_value := v\<rparr> # zs"
    by simp
  with assms findEntry_first[OF assms] show ?thesis
    by (simp add: lru_unsafeSet_def MoveToFront_decomp)
qed

lemma lru_split_first:
  assumes "key \<in> set (lru_keys c)"
  obtains ys e zs where "lru_entries c = ys @ e # zs" and "lru_key e = key"
    and "key \<notin> lru_key ` set ys"
proof -
  from assms obtain i where i: "lru_findEntry c key = Some i"
    using findEntry_None[of c key] by (cases "lru_findEntry c key") auto
  from findEntry_decomp[OF i] that show thesis by metis
qed

lemma lru_lookup_hit:
  assumes "lru_entries c = ys @ e # zs" and "lru_key e = key" and "key \<notin> lru_key ` set ys"
  shows "lru_lookup c key = Some (lru_value e)"
proof -
  from assms(2,3) have "map_of (map lru_pair ys) key = None"
    by (simp add: map_of_eq_None_iff image_image lru_pair_def)
  with assms(1,2) show ?thesis
    by (simp add: lru_lookup_def map_add_def lru_pair_def)
qed

lemma lru_lookup_miss: "key \<notin> set (lru_keys c) \<Longrightarrow> lru_lookup c key = None"
  by (simp add: lru_lookup_def lru_keys_def map_of_eq_None_iff image_image lru_pair_def)

lemma lru_lookup_dom: "dom (lru_lookup c) = set (lru_keys c)"
  by (simp add: lru_lookup_def lru_keys_def dom_map_of_conv_image_fst image_image lru_pair_def)

lemma lru_unsafeGet_result:
  "fst (lru_unsafeGet c key) =
     (case lru_lookup c key of None \<Rightarrow> (0, False) | Some v \<Rightarrow> (v, True))"
proof (cases "key \<in> set (lru_keys c)")
  case False
  then show ?thesis by (simp add: lru_unsafeGet_miss lru_lookup_miss)
next
  case True
  then obtain ys e zs where d: "lru_entries c = ys @ e # zs" "lru_key e = key"
    "key \<notin> lru_key ` set ys" by (rule lru_split_first)
  then show ?thesis by (simp add: lru_unsafeGet_hit[OF d] lru_lookup_hit[OF d])
qed

lemma lru_unsafeGet_lookup: "lru_lookup (snd (lru_unsafeGet c key)) = lru_lookup c"
proof (cases "key \<in> set (lru_keys c)")
  case False
  then show ?thesis by (simp add: lru_unsafeGet_miss)
next
  case True
  then obtain ys e zs where d: "lru_entries c = ys @ e # zs" "lru_key e = key"
    "key \<notin> lru_key ` set ys" by (rule lru_split_first)
  from d(3) d(2) have "fst (lru_pair e) \<notin> fst ` lru_pair ` set ys"
    by (simp add: image_image lru_pair_def)
  from map_of_front[OF this, of zs] d(1) show ?thesis
    by (simp add: lru_unsafeGet_hit[OF d] lru_lookup_def)
qed

lemma lru_unsafeGet_entries:
  "set (lru_entries (snd (lru_unsafeGet c key))) = set (lru_entries c) \<and>
   length (lru_entries (snd (lru_unsafeGet c key))) = length (lru_entries c) \<and>
   (distinct (lru_keys c) \<longrightarrow> distinct (lru_keys (snd (lru_unsafeGet c key))))"
proof (cases "key \<in> set (lru_keys c)")
  case False
  then show ?thesis by (simp add: lru_unsafeGet_miss)
next
  case True
  then obtain ys e zs where d: "lru_entries c = ys @ e # zs" "lru_key e = key"
    "key \<notin> lru_key ` set ys" by (rule lru_split_first)
  from d(1) show ?thesis
    by (auto simp: lru_unsafeGet_hit[OF d] lru_keys_def)
qed

lemma lru_unsafeSet_lookup: "lru_lookup (lru_unsafeSet c key v) = (lru_lookup c)(key \<mapsto> v)"
proof (cases "key \<in> set (lru_keys c)")
  case False
  then show ?thesis
    by (simp add: lru_unsafeSet_miss lru_lookup_def lru_pair_def)
next
  case True
  then obtain ys e zs where d: "lru_entries c = ys @ e # zs" "lru_key e = key"
    "key \<notin> lru_key ` set ys" by (rule lru_split_first)
  let ?e = "e\<lparr>lru_value := v\<rparr>"
  from d(3) d(2) have "fst (lru_pair ?e) \<notin> fst ` lru_pair ` set ys"
    by (simp add: image_image lru_pair_def)
  from map_of_front[OF this, of zs]
  have "lru_lookup (lru_unsafeSet c key v) = map_of (map lru_pair (ys @ ?e # zs))"
    by (simp add: lru_unsafeSet_hit[OF d] lru_lookup_def)
  also have "\<dots> = (lru_lookup c)(key \<mapsto> v)"
  proof
    fix k
    from d(2,3) have "map_of (map lru_pair ys) key = None"
      by (simp add: map_of_eq_None_iff image_image lru_pair_def)
    with d(1,2) show "map_of (map lru_pair (ys @ ?e # zs)) k = ((lru_lookup c)(key \<mapsto> v)) k"
      by (auto simp: lru_lookup_def lru_pair_def map_add_def split: option.splits)
  qed
  finally show ?thesis .
qed

lemma lru_unsafeSet_keys:
  "set (lru_keys (lru_unsafeSet c key v)) = insert key (set (lru_keys c)) \<and>
   length (lru_entries (lru_unsafeSet c key v)) =
     (if key \<in> set (lru_keys c) then length (lru_entries c) else Suc (length (lru_entries c))) \<and>
   (distinct (lru_keys c) \<longrightarrow> distinct (lru_keys (lru_unsafeSet c key v))) \<and>
   hd (lru_keys (lru_unsafeSet c key v)) = key"
proof (cases "key \<in> set (lru_keys c)")
  case False
  then show ?thesis by (simp add: lru_unsafeSet_miss lru_keys_def)
next
  case True
  then obtain ys e zs where d: "lru_entries c = ys @ e # zs" "lru_key e = key"
    "key \<notin> lru_key ` set ys" by (rule lru_split_first)
  from d(1,2) True show ?thesis
    by (auto simp: lru_unsafeSet_hit[OF d] lru_keys_def)
qed

section \<open>The paths of Do\<close>

lemma ttl_Get_miss_store:
  "\<not> snd (fst (ttl_unsafeGet c key t)) \<Longrightarrow> ttl_unsafeGet c key t = ((0, False), c)"
  by (auto simp: ttl_unsafeGet_def split: option.splits)

lemma ttl_Get_snd: "snd (ttl_unsafeGet c key t) = c"
  by (auto simp: ttl_unsafeGet_def split: option.splits)

lemma ttl_Get_miss_later:
  "\<not> snd (fst (ttl_unsafeGet c key t)) \<Longrightarrow> t \<le> u \<Longrightarrow> ttl_unsafeGet c key u = ((0, False), c)"
  by (auto simp: ttl_unsafeGet_def split: option.splits if_splits)

lemma ttl_Do_hit:
  "snd (fst (ttl_unsafeGet c key t1)) \<Longrightarrow>
     ttl_Do c key fn t1 t2 t3 w = ((fst (fst (ttl_unsafeGet c key t1)), None), c, w)"
  by (auto simp: ttl_Do_def ttl_Get_def ttl_unsafeGet_def split: option.splits)

lemma ttl_Do_hit2:
  "\<not> snd (fst (ttl_unsafeGet c key t1)) \<Longrightarrow> snd (fst (ttl_unsafeGet c key t2)) \<Longrightarrow>
     ttl_Do c key fn t1 t2 t3 w = ((fst (fst (ttl_unsafeGet c key t2)), None), c, w)"
  by (auto simp: ttl_Do_def ttl_Get_def ttl_unsafeGet_def split: option.splits)

lemma ttl_Do_miss:
  "\<not> snd (fst (ttl_unsafeGet c key t1)) \<Longrightarrow> \<not> snd (fst (ttl_unsafeGet c key t2)) \<Longrightarrow>
     ttl_Do c key fn t1 t2 t3 w =
       (case fn w of
          ((v, Some e), w') \<Rightarrow> ((v, Some e), c, w')
        | ((v, None), w') \<Rightarrow> ((v, None), ttl_unsafeSet c key v t3, w'))"
  by (auto simp: ttl_Do_def ttl_Get_def ttl_unsafeGet_def split: option.splits prod.splits)

lemma ttl_Do_error:
  assumes "ttl_Do c key fn t1 t2 t3 w = ((v, Some e), c', w')"
  shows "\<not> snd (fst (ttl_unsafeGet c key t1))" and "\<not> snd (fst (ttl_unsafeGet c key t2))"
    and "fn w = ((v, Some e), w')" and "c' = c"
proof -
  show m1: "\<not> snd (fst (ttl_unsafeGet c key t1))"
    using assms ttl_Do_hit[of c key t1 fn t2 t3 w] by auto
  show m2: "\<not> snd (fst (ttl_unsafeGet c key t2))"
    using assms m1 ttl_Do_hit2[of c key t1 t2 fn t3 w] by auto
  from assms ttl_Do_miss[OF m1 m2, of fn t3 w]
  show "fn w = ((v, Some e), w')" and "c' = c"
    by (auto split: prod.splits option.splits)
qed

lemma lru_Get_miss_store:
  "\<not> snd (fst (lru_unsafeGet c key)) \<Longrightarrow> lru_unsafeGet c key = ((0, False), c)"
  by (auto simp: lru_unsafeGet_def split: option.splits)

lemma lru_Do_hit:
  "snd (fst (lru_unsafeGet c key)) \<Longrightarrow>
     lru_Do c key fn w = ((fst (fst (lru_unsafeGet c key)), None), snd (lru_unsafeGet c key), w)"
  by (cases "lru_unsafeGet c key") (auto simp: lru_Do_def lru_Get_def)

lemma lru_Do_miss:
  "\<not> snd (fst (lru_unsafeGet c key)) \<Longrightarrow>
     lru_Do c key fn w =
       (case fn w of
          ((v, Some e), w') \<Rightarrow> ((v, Some e), c, w')
        | ((v, None), w') \<Rightarrow> ((v, None), lru_unsafeSet c key v, w'))"
  by (simp add: lru_Do_def lru_Get_def lru_Get_miss_store)

lemma lru_Do_error:
  assumes "lru_Do c key fn w = ((v, Some e), c', w')"
  shows "\<not> snd (fst (lru_unsafeGet c key))" and "fn w = ((v, Some e), w')" and "c' = c"
proof -
  show m: "\<not> snd (fst (lru_unsafeGet c key))"
    using assms lru_Do_hit[of c key fn w] by auto
  from assms lru_Do_miss[OF m, of fn w]
  show "fn w = ((v, Some e), w')" and "c' = c"
    by (auto split: prod.splits option.splits)
qed

lemma ttl_New_miss: "ttl_unsafeGet (ttl_New T) key t = ((0, False), ttl_New T)"
  by (simp add: ttl_unsafeGet_def ttl_New_def)

lemma lru_New_miss: "lru_unsafeGet (lru_New T) key = ((0, False), lru_New T)"
  by (simp add: lru_unsafeGet_def lru_New_def list_New_def list_Front_def)


lemma ttl_Do_miss_runs:
  assumes "\<not> snd (fst (ttl_unsafeGet c key t1))" and "\<not> snd (fst (ttl_unsafeGet c key t2))"
  shows "fst (ttl_Do c key fn t1 t2 t3 w) = fst (fn w)"
    and "snd (snd (ttl_Do c key fn t1 t2 t3 w)) = snd (fn w)"
  by (simp_all add: ttl_Do_miss[OF assms] split: prod.splits option.splits)

lemma lru_Do_miss_runs:
  assumes "\<not> snd (fst (lru_unsafeGet c key))"
  shows "fst (lru_Do c key fn w) = fst (fn w)"
    and "snd (snd (lru_Do c key fn w)) = snd (fn w)"
  by (simp_all add: lru_Do_miss[OF assms] split: prod.splits option.splits)

lemma ttl_Do_present:
  "ttl_data c key = Some en \<Longrightarrow> \<not> ttl_expireAt en < t1 \<Longrightarrow>
     ttl_Do c key fn t1 t2 t3 w = ((ttl_value en, None), c, w)"
  by (simp add: ttl_Do_def ttl_Get_def ttl_unsafeGet_def)

lemma ttl_absent_miss: "ttl_data c key = None \<Longrightarrow> \<not> snd (fst (ttl_unsafeGet c key t))"
  by (simp add: ttl_unsafeGet_def)

lemma ttl_Do_absent_ok:
  assumes "ttl_data c key = None" and "fst (fn w) = (v, None)"
  shows "ttl_Do c key fn t1 t2 t3 w = ((v, None), ttl_unsafeSet c key v t3, snd (fn w))"
  using assms
    ttl_Do_miss[where fn = fn and w = w and ?t3.0 = t3,
      OF ttl_absent_miss[OF assms(1), of t1] ttl_absent_miss[OF assms(1), of t2]]
  by (cases "fn w") auto

lemma ttl_Get_after_Set:
  "fst (ttl_Get (ttl_unsafeSet c key v t3) key t) =
     (if t3 + ttl_ttl c < t then (0, False) else (v, True))"
  by (simp add: ttl_Get_def ttl_unsafeGet_def ttl_unsafeSet_def)

lemma lru_Do_present:
  assumes "lru_lookup d k = Some x"
  shows "fst (lru_Do d k g u) = (x, None)" and "snd (snd (lru_Do d k g u)) = u"
    and "lru_lookup (fst (snd (lru_Do d k g u))) = lru_lookup d"
proof -
  from assms have r: "fst (lru_unsafeGet d k) = (x, True)" by (simp add: lru_unsafeGet_result)
  then have hit: "snd (fst (lru_unsafeGet d k))" by simp
  from r show "fst (lru_Do d k g u) = (x, None)" by (simp add: lru_Do_hit[OF hit])
  show "snd (snd (lru_Do d k g u)) = u" by (simp add: lru_Do_hit[OF hit])
  show "lru_lookup (fst (snd (lru_Do d k g u))) = lru_lookup d"
    by (simp add: lru_Do_hit[OF hit] lru_unsafeGet_lookup)
qed

lemma lru_absent_miss: "k \<notin> set (lru_keys d) \<Longrightarrow> \<not> snd (fst (lru_unsafeGet d k))"
  by (simp add: lru_unsafeGet_miss)

lemma lru_Do_absent_ok:
  assumes "k \<notin> set (lru_keys d)" and "fst (g u) = (y, None)"
  shows "lru_Do d k g u = ((y, None), lru_unsafeSet d k y, snd (g u))"
  using assms lru_Do_miss[where fn = g and w = u, OF lru_absent_miss[OF assms(1)]]
  by (cases "g u") auto

lemma lru_Get_after_Set: "fst (lru_Get (lru_unsafeSet d k y) k) = (y, True)"
  by (simp add: lru_Get_def lru_unsafeGet_result lru_unsafeSet_lookup)

lemma ttl_gone_miss:
  assumes "ttl_data c key = None \<or>
           (ttl_data c key = Some en \<and> ttl_expireAt en < u1 \<and> ttl_expireAt en < u2)"
  shows "\<not> snd (fst (ttl_unsafeGet c key u1))" and "\<not> snd (fst (ttl_unsafeGet c key u2))"
  using assms by (auto simp: ttl_unsafeGet_def)

lemma ttl_Do_gone_ok:
  assumes "ttl_data c key = None \<or>
           (ttl_data c key = Some en \<and> ttl_expireAt en < u1 \<and> ttl_expireAt en < u2)"
    and "fst (fn w) = (v, None)"
  shows "ttl_Do c key fn u1 u2 u3 w = ((v, None), ttl_unsafeSet c key v u3, snd (fn w))"
  using assms(2)
    ttl_Do_miss[where fn = fn and w = w and ?t3.0 = u3,
      OF ttl_gone_miss(1)[OF assms(1)] ttl_gone_miss(2)[OF assms(1)]]
  by (cases "fn w") auto

section \<open>Sequences of Set and the bulk setters\<close>

lemma lru_Sets_Nil: "lru_Sets c [] = c"
  by (simp add: lru_Sets_def)

lemma lru_Sets_Cons: "lru_Sets c ((k, v) # rest) = lru_Sets (lru_unsafeSet c k v) rest"
  by (simp add: lru_Sets_def lru_Set_def)

lemma last_Set_Cons:
  "last_Set ((k, v) # rest) = [k \<mapsto> v] ++ last_Set rest"
  by (simp add: last_Set_def)

lemma lru_Sets_lookup: "lru_lookup (lru_Sets c kvs) = lru_lookup c ++ last_Set kvs"
proof (induction kvs arbitrary: c)
  case Nil
  then show ?case by (simp add: lru_Sets_Nil last_Set_def)
next
  case (Cons kv rest)
  obtain k v where kv: "kv = (k, v)" by (cases kv)
  have "lru_lookup (lru_Sets c (kv # rest)) = (lru_lookup c)(k \<mapsto> v) ++ last_Set rest"
    by (simp only: kv lru_Sets_Cons Cons.IH lru_unsafeSet_lookup)
  also have "\<dots> = lru_lookup c ++ ([k \<mapsto> v] ++ last_Set rest)"
    by (auto simp: map_add_def fun_eq_iff split: option.splits)
  finally show ?case by (simp add: kv last_Set_Cons)
qed

lemma lru_Sets_distinct: "distinct (lru_keys c) \<Longrightarrow> distinct (lru_keys (lru_Sets c kvs))"
proof (induction kvs arbitrary: c)
  case Nil
  then show ?case by (simp add: lru_Sets_Nil)
next
  case (Cons kv rest)
  obtain k v where kv: "kv = (k, v)" by (cases kv)
  from Cons.prems have "distinct (lru_keys (lru_unsafeSet c k v))"
    using lru_unsafeSet_keys[of c k v] by simp
  then show ?case by (simp add: kv lru_Sets_Cons Cons.IH)
qed

lemma lru_Sets_keys: "set (lru_keys (lru_Sets c kvs)) = set (lru_keys c) \<union> fst ` set kvs"
proof (induction kvs arbitrary: c)
  case Nil
  then show ?case by (simp add: lru_Sets_Nil)
next
  case (Cons kv rest)
  obtain k v where kv: "kv = (k, v)" by (cases kv)
  have "set (lru_keys (lru_unsafeSet c k v)) = insert k (set (lru_keys c))"
    using lru_unsafeSet_keys[of c k v] by simp
  then show ?case by (simp add: kv lru_Sets_Cons Cons.IH)
qed

lemma lru_Sets_length:
  "distinct (map fst kvs) \<Longrightarrow> fst ` set kvs \<inter> set (lru_keys c) = {} \<Longrightarrow>
     length (lru_entries (lru_Sets c kvs)) = length (lru_entries c) + length kvs"
proof (induction kvs arbitrary: c)
  case Nil
  then show ?case by (simp add: lru_Sets_Nil)
next
  case (Cons kv rest)
  obtain k v where kv: "kv = (k, v)" by (cases kv)
  from Cons.prems kv have fresh: "k \<notin> set (lru_keys c)" by auto
  have keys: "set (lru_keys (lru_unsafeSet c k v)) = insert k (set (lru_keys c))"
    and len: "length (lru_entries (lru_unsafeSet c k v)) = Suc (length (lru_entries c))"
    using lru_unsafeSet_keys[of c k v] fresh by simp_all
  from Cons.prems kv have d: "distinct (map fst rest)"
    and "fst ` set rest \<inter> set (lru_keys (lru_unsafeSet c k v)) = {}"
    by (auto simp: keys)
  from Cons.IH[OF this] len show ?case by (simp add: kv lru_Sets_Cons)
qed

lemma last_Set_distinct:
  "distinct (map fst kvs) \<Longrightarrow> (k, v) \<in> set kvs \<Longrightarrow> last_Set kvs k = Some v"
  by (simp add: last_Set_def rev_map[symmetric])

lemma lru_Get_Sets:
  "last_Set kvs k = Some v \<Longrightarrow> fst (lru_Get (lru_Sets c kvs) k) = (v, True)"
  by (simp add: lru_Get_def lru_unsafeGet_result lru_Sets_lookup)

lemma lru_New_keys: "lru_keys (lru_New T) = []"
  by (simp add: lru_keys_def lru_New_def list_New_def)

lemma ttl_Sets_Nil: "ttl_Sets c [] = c"
  by (simp add: ttl_Sets_def)

lemma ttl_Sets_Cons: "ttl_Sets c ((k, v, t) # rest) = ttl_Sets (ttl_unsafeSet c k v t) rest"
  by (simp add: ttl_Sets_def ttl_Set_def)

lemma ttl_Sets_ttl: "ttl_ttl (ttl_Sets c kvts) = ttl_ttl c"
proof (induction kvts arbitrary: c)
  case Nil
  then show ?case by (simp add: ttl_Sets_Nil)
next
  case (Cons x rest)
  obtain k v t where x: "x = (k, v, t)" by (cases x)
  show ?case by (simp add: x ttl_Sets_Cons Cons.IH ttl_unsafeSet_def)
qed

lemma ttl_Sets_data:
  "ttl_data (ttl_Sets c kvts) k =
     (case last_Set kvts k of
        None \<Rightarrow> ttl_data c k
      | Some (v, t) \<Rightarrow> Some \<lparr>ttl_value = v, ttl_expireAt = t + ttl_ttl c\<rparr>)"
proof (induction kvts arbitrary: c)
  case Nil
  then show ?case by (simp add: ttl_Sets_Nil last_Set_def)
next
  case (Cons x rest)
  obtain k' v t where x: "x = (k', v, t)" by (cases x)
  show ?case
    by (auto simp: x ttl_Sets_Cons Cons.IH last_Set_Cons map_add_def ttl_unsafeSet_def
        split: option.splits)
qed

lemma ttl_Get_Sets:
  assumes "last_Set kvts k = Some (v, t0)"
  shows "ttl_data (ttl_Sets c kvts) k = Some \<lparr>ttl_value = v, ttl_expireAt = t0 + ttl_ttl c\<rparr>"
    and "fst (ttl_Get (ttl_Sets c kvts) k t) =
           (if t0 + ttl_ttl c < t then (0, False) else (v, True))"
  using assms by (simp_all add: ttl_Sets_data ttl_Get_def ttl_unsafeGet_def)

lemma lru_SetFromIter_Sets: "lru_SetFromIter c kvs = lru_Sets c kvs"
proof (induction kvs arbitrary: c)
  case Nil
  then show ?case by (simp add: lru_Sets_Nil)
next
  case (Cons kv rest)
  obtain k v where kv: "kv = (k, v)" by (cases kv)
  show ?case by (simp add: kv lru_Sets_Cons Cons.IH)
qed

lemma lru_Sets_length_mono: "length (lru_entries c) \<le> length (lru_entries (lru_Sets c kvs))"
proof (induction kvs arbitrary: c)
  case Nil
  then show ?case by (simp add: lru_Sets_Nil)
next
  case (Cons kv rest)
  obtain k v where kv: "kv = (k, v)" by (cases kv)
  have "length (lru_entries c) \<le> length (lru_entries (lru_unsafeSet c k v))"
    using lru_unsafeSet_keys[of c k v] by (simp split: if_splits)
  also have "\<dots> \<le> length (lru_entries (lru_Sets (lru_unsafeSet c k v) rest))"
    by (rule Cons.IH)
  finally show ?case by (simp add: kv lru_Sets_Cons)
qed

lemma lru_Get_keeps:
  "set (lru_keys c) \<subseteq> set (lru_keys (snd (lru_Get c key))) \<and>
   length (lru_entries c) \<le> length (lru_entries (snd (lru_Get c key)))"
  using lru_unsafeGet_entries[of c key] by (simp add: lru_Get_def lru_keys_def)

lemma lru_Set_keeps:
  "set (lru_keys c) \<subseteq> set (lru_keys (lru_Set c key v)) \<and>
   length (lru_entries c) \<le> length (lru_entries (lru_Set c key v))"
  using lru_unsafeSet_keys[of c key v] by (auto simp: lru_Set_def split: if_splits)

lemma lru_Do_store:
  "fst (snd (lru_Do c key fn w)) = snd (lru_unsafeGet c key) \<or>
   fst (snd (lru_Do c key fn w)) = c \<or>
   (\<exists>v. fst (snd (lru_Do c key fn w)) = lru_unsafeSet c key v)"
proof (cases "snd (fst (lru_unsafeGet c key))")
  case True
  then show ?thesis by (simp add: lru_Do_hit)
next
  case False
  then show ?thesis
    by (auto simp: lru_Do_miss split: prod.splits option.splits)
qed

lemma lru_Do_keeps:
  "set (lru_keys c) \<subseteq> set (lru_keys (fst (snd (lru_Do c key fn w)))) \<and>
   length (lru_entries c) \<le> length (lru_entries (fst (snd (lru_Do c key fn w))))"
proof -
  from lru_Do_store[of c key fn w]
  consider "fst (snd (lru_Do c key fn w)) = snd (lru_Get c key)"
    | "fst (snd (lru_Do c key fn w)) = c"
    | v where "fst (snd (lru_Do c key fn w)) = lru_Set c key v"
    by (auto simp: lru_Get_def lru_Set_def)
  then show ?thesis
  proof cases
    case 1
    then show ?thesis by (simp only: lru_Get_keeps)
  next
    case 2
    then show ?thesis by simp
  next
    case 3
    then show ?thesis by (simp only: lru_Set_keeps)
  qed
qed

lemma lru_SetFromIter_keeps:
  "set (lru_keys c) \<subseteq> set (lru_keys (lru_SetFromIter c kvs)) \<and>
   length (lru_entries c) \<le> length (lru_entries (lru_SetFromIter c kvs))"
  by (simp add: lru_SetFromIter_Sets lru_Sets_keys lru_Sets_length_mono)

lemma stamp_Nil: "stamp now [] = []"
  by (simp add: stamp_def)

lemma stamp_Cons: "stamp now ((k, v) # rest) = (k, v, now 0) # stamp (\<lambda>i. now (Suc i)) rest"
  by (simp add: stamp_def enumerate_Suc_eq[of 0] comp_def split_beta)

lemma ttl_SetFromIter_Sets: "ttl_SetFromIter c kvs now = ttl_Sets c (stamp now kvs)"
proof (induction kvs arbitrary: c now)
  case Nil
  then show ?case by (simp add: stamp_Nil ttl_Sets_Nil)
next
  case (Cons kv rest)
  obtain k v where kv: "kv = (k, v)" by (cases kv)
  show ?case by (simp add: kv stamp_Cons ttl_Sets_Cons Cons.IH)
qed

lemma stamp_keys: "map fst (stamp now kvs) = map fst kvs"
proof (induction kvs arbitrary: now)
  case Nil
  then show ?case by (simp add: stamp_Nil)
next
  case (Cons kv rest)
  obtain k v where kv: "kv = (k, v)" by (cases kv)
  show ?case by (simp add: kv stamp_Cons Cons.IH)
qed

lemma stamp_nth:
  "i < length kvs \<Longrightarrow> stamp now kvs ! i = (fst (kvs ! i), snd (kvs ! i), now i)"
  by (simp add: stamp_def nth_enumerate_eq split_beta)

lemma last_Set_stamp:
  assumes "distinct (map fst order)" and "i < length order" and "order ! i = (k, v)"
  shows "last_Set (stamp now order) k = Some (v, now i)"
proof -
  from assms(2) have "i < length (stamp now order)" by (simp add: stamp_def)
  then have "stamp now order ! i \<in> set (stamp now order)" by (rule nth_mem)
  with assms(2,3) have "(k, (v, now i)) \<in> set (stamp now order)" by (simp add: stamp_nth)
  moreover from assms(1) have "distinct (map fst (stamp now order))" by (simp add: stamp_keys)
  ultimately show ?thesis by (rule last_Set_distinct[rotated])
qed

lemma last_Set_order:
  assumes "distinct (map fst xs)" and "distinct (map fst ys)" and "set xs = set ys"
  shows "last_Set xs = last_Set ys"
proof -
  from assms have "map_of (rev xs) = map_of (rev ys)"
    by (subst map_of_inject_set) (simp_all add: rev_map[symmetric])
  then show ?thesis by (simp add: last_Set_def)
qed

section \<open>The TTL Store: expiry\<close>

text \<open>
  Claim C2. In a TTL Store whose ttl is \<open>T\<close>, after \<^verbatim>\<open>Set(k, v)\<close> at time \<open>t0\<close> a
  \<^verbatim>\<open>Get(k)\<close> at a time strictly before \<open>t0 + T\<close> returns \<open>(v, true)\<close>, and one at a time
  strictly after \<open>t0 + T\<close> returns \<open>(zero, false)\<close>; that read leaves the expired entry
  in the map; a later \<^verbatim>\<open>Set(k, v2)\<close> at time \<open>t2\<close> writes the entry with the expiry
  \<open>t2 + T\<close>, and reads before that time return \<open>(v2, true)\<close>.
\<close>

theorem ttl_lazy_expiry:
  "(t < t0 + ttl_ttl c \<longrightarrow> fst (ttl_Get (ttl_Set c k v t0) k t) = (v, True)) \<and>
   (t0 + ttl_ttl c < t' \<longrightarrow>
      fst (ttl_Get (ttl_Set c k v t0) k t') = (0, False) \<and>
      ttl_data (snd (ttl_Get (ttl_Set c k v t0) k t')) k
        = Some \<lparr>ttl_value = v, ttl_expireAt = t0 + ttl_ttl c\<rparr> \<and>
      ttl_data (ttl_Set (snd (ttl_Get (ttl_Set c k v t0) k t')) k v2 t2) k
        = Some \<lparr>ttl_value = v2, ttl_expireAt = t2 + ttl_ttl c\<rparr> \<and>
      (t'' < t2 + ttl_ttl c \<longrightarrow>
         fst (ttl_Get (ttl_Set (snd (ttl_Get (ttl_Set c k v t0) k t')) k v2 t2) k t'') = (v2, True)))"
  by (simp add: ttl_Get_def ttl_unsafeGet_def ttl_Set_def ttl_unsafeSet_def)

theorem ttl_lazy_expiry_witness:
  "(9::int) < 0 + ttl_ttl (ttl_New 10 :: (string, int) ttl_Cache) \<and>
   0 + ttl_ttl (ttl_New 10 :: (string, int) ttl_Cache) < 11 \<and>
   (20::int) < 12 + ttl_ttl (ttl_New 10 :: (string, int) ttl_Cache) \<and>
   fst (ttl_Get (ttl_Set (ttl_New 10) ''k'' (1::int) 0) ''k'' 9) = (1, True) \<and>
   fst (ttl_Get (ttl_Set (ttl_New 10) ''k'' (1::int) 0) ''k'' 11) = (0, False) \<and>
   ttl_data (snd (ttl_Get (ttl_Set (ttl_New 10) ''k'' (1::int) 0) ''k'' 11)) ''k''
     = Some \<lparr>ttl_value = 1, ttl_expireAt = 10\<rparr> \<and>
   fst (ttl_Get (ttl_Set (snd (ttl_Get (ttl_Set (ttl_New 10) ''k'' (1::int) 0) ''k'' 11))
                   ''k'' 2 12) ''k'' 20) = (2, True)"
  using ttl_lazy_expiry [of 9 0 "ttl_New 10 :: (string, int) ttl_Cache" "''k''" 1 11 2 12 20]
  by (simp add: ttl_New_def)

text \<open>
  Claim C6. In a TTL Store whose ttl is zero or negative, \<^verbatim>\<open>Set(k, v)\<close> followed by
  \<^verbatim>\<open>Get(k)\<close> at any strictly later time returns \<open>(zero, false)\<close>.
\<close>

theorem ttl_nonpositive_ttl_expired:
  "ttl_ttl c \<le> 0 \<and> t0 < t \<longrightarrow>
     ttl_Get (ttl_Set c k v t0) k t = ((0, False), ttl_Set c k v t0)"
  by (simp add: ttl_Get_def ttl_unsafeGet_def ttl_Set_def ttl_unsafeSet_def)

theorem ttl_nonpositive_ttl_expired_witness:
  "ttl_ttl (ttl_New 0 :: (string, int) ttl_Cache) \<le> 0 \<and> (5::int) < 6 \<and>
   fst (ttl_Get (ttl_Set (ttl_New 0) ''x'' (10::int) 5) ''x'' 6) = (0, False)"
  using ttl_nonpositive_ttl_expired [of "ttl_New 0 :: (string, int) ttl_Cache" 5 6 "''x''" 10]
  by (simp add: ttl_New_def)


section \<open>Do: what a failing producer gives\<close>

text \<open>
  Claim C10. In both stores, when \<^verbatim>\<open>Do\<close> misses and the producer returns \<open>(v, err)\<close> with
  a non-nil \<open>err\<close>, \<^verbatim>\<open>Do\<close> returns that very pair, whatever \<open>v\<close> is; and whenever
  \<^verbatim>\<open>Do\<close> returns a non-nil error, its result is the pair the producer returned.
\<close>

theorem Do_returns_producer_pair:
  "(\<not> snd (fst (ttl_Get c key t1)) \<and> \<not> snd (fst (ttl_unsafeGet c key t2)) \<and>
      fn w = ((v, Some e), w')
      \<longrightarrow> fst (ttl_Do c key fn t1 t2 t3 w) = (v, Some e)) \<and>
   (snd (fst (ttl_Do c key fn t1 t2 t3 w)) \<noteq> None
      \<longrightarrow> fst (ttl_Do c key fn t1 t2 t3 w) = fst (fn w)) \<and>
   (\<not> snd (fst (lru_Get d key')) \<and> fn' u = ((v', Some e'), u')
      \<longrightarrow> fst (lru_Do d key' fn' u) = (v', Some e')) \<and>
   (snd (fst (lru_Do d key' fn' u)) \<noteq> None
      \<longrightarrow> fst (lru_Do d key' fn' u) = fst (fn' u))"
proof (intro conjI impI)
  assume "\<not> snd (fst (ttl_Get c key t1)) \<and> \<not> snd (fst (ttl_unsafeGet c key t2)) \<and>
      fn w = ((v, Some e), w')"
  then show "fst (ttl_Do c key fn t1 t2 t3 w) = (v, Some e)"
    by (simp add: ttl_Do_miss ttl_Get_def)
next
  assume a: "snd (fst (ttl_Do c key fn t1 t2 t3 w)) \<noteq> None"
  then obtain x y c' w' where "ttl_Do c key fn t1 t2 t3 w = ((x, Some y), c', w')"
    by (cases "ttl_Do c key fn t1 t2 t3 w") auto
  from this ttl_Do_error(3)[OF this] show "fst (ttl_Do c key fn t1 t2 t3 w) = fst (fn w)"
    by simp
next
  assume "\<not> snd (fst (lru_Get d key')) \<and> fn' u = ((v', Some e'), u')"
  then show "fst (lru_Do d key' fn' u) = (v', Some e')"
    by (simp add: lru_Do_miss lru_Get_def)
next
  assume a: "snd (fst (lru_Do d key' fn' u)) \<noteq> None"
  then obtain x y c' w' where "lru_Do d key' fn' u = ((x, Some y), c', w')"
    by (cases "lru_Do d key' fn' u") auto
  from this lru_Do_error(2)[OF this] show "fst (lru_Do d key' fn' u) = fst (fn' u)"
    by simp
qed

theorem Do_returns_producer_pair_witness:
  "\<not> snd (fst (ttl_Get (ttl_New 5 :: (string, int) ttl_Cache) ''k'' 0)) \<and>
   \<not> snd (fst (ttl_unsafeGet (ttl_New 5 :: (string, int) ttl_Cache) ''k'' 1)) \<and>
   producer_err (42::int) ''boom'' 0 = ((42, Some ''boom''), 1) \<and>
   fst (ttl_Do (ttl_New 5) ''k'' (producer_err (42::int) ''boom'') 0 1 2 0) = (42, Some ''boom'') \<and>
   snd (fst (ttl_Do (ttl_New 5) ''k'' (producer_err (42::int) ''boom'') 0 1 2 0)) \<noteq> None \<and>
   \<not> snd (fst (lru_Get (lru_New 0 :: (string, int) lru_Cache) ''k'')) \<and>
   fst (lru_Do (lru_New 0) ''k'' (producer_err (42::int) ''boom'') 0) = (42, Some ''boom'') \<and>
   snd (fst (lru_Do (lru_New 0) ''k'' (producer_err (42::int) ''boom'') 0)) \<noteq> None"
proof -
  note inst = Do_returns_producer_pair [of "ttl_New 5 :: (string, int) ttl_Cache" "''k''" 0 1
      "producer_err 42 ''boom''" 0 42 "''boom''" 1 2 "lru_New 0 :: (string, int) lru_Cache" "''k''"
      "producer_err 42 ''boom''" 0 42 "''boom''" 1]
  have h1: "\<not> snd (fst (ttl_Get (ttl_New 5 :: (string, int) ttl_Cache) ''k'' 0)) \<and>
            \<not> snd (fst (ttl_unsafeGet (ttl_New 5 :: (string, int) ttl_Cache) ''k'' 1)) \<and>
            producer_err (42::int) ''boom'' 0 = ((42, Some ''boom''), 1)"
    by (simp add: ttl_New_miss ttl_Get_def producer_err_def)
  have h2: "\<not> snd (fst (lru_Get (lru_New 0 :: (string, int) lru_Cache) ''k'')) \<and>
            producer_err (42::int) ''boom'' 0 = ((42, Some ''boom''), 1)"
    by (simp add: lru_New_miss lru_Get_def producer_err_def)
  from inst h1
  have r1: "fst (ttl_Do (ttl_New 5) ''k'' (producer_err (42::int) ''boom'') 0 1 2 0) = (42, Some ''boom'')"
    by blast
  from inst h2
  have r2: "fst (lru_Do (lru_New 0) ''k'' (producer_err (42::int) ''boom'') 0) = (42, Some ''boom'')"
    by blast
  from r1 have n1: "snd (fst (ttl_Do (ttl_New 5) ''k'' (producer_err (42::int) ''boom'') 0 1 2 0)) \<noteq> None"
    by simp
  from r2 have n2: "snd (fst (lru_Do (lru_New 0) ''k'' (producer_err (42::int) ''boom'') 0)) \<noteq> None"
    by simp
  from h1 h2 r1 r2 n1 n2 show ?thesis by blast
qed

section \<open>Do: a failing producer leaves no trace\<close>

text \<open>
  Claim C1. In both stores, when \<^verbatim>\<open>Do\<close> misses (in the TTL Store the key is not in the
  map or its entry is expired at both reads) and the producer returns \<open>(v, err)\<close> with a
  non-nil \<open>err\<close>, \<^verbatim>\<open>Do\<close> returns that value and that error, the producer has run once,
  and the store is the one \<^verbatim>\<open>Do\<close> was called on; a \<^verbatim>\<open>Get\<close> of the key that follows
  returns \<open>(zero, false)\<close> and leaves the store as it is, and a \<^verbatim>\<open>Do\<close> of the key that
  follows runs its producer and returns what it returns. For the TTL Store the reads that
  follow happen at times not before the first clock reading of the failed \<^verbatim>\<open>Do\<close>.
  Conversely, a \<^verbatim>\<open>Do\<close> that returns a non-nil error has missed, the error is the
  producer's, and the store is unchanged.
\<close>

theorem Do_error_leaves_no_trace:
  "(\<not> snd (fst (ttl_Get c key t1)) \<and> \<not> snd (fst (ttl_unsafeGet c key t2)) \<and>
      fn w = ((v, Some e), w') \<and> t1 \<le> t \<and> t1 \<le> u1 \<and> t1 \<le> u2 \<longrightarrow>
      ttl_Do c key fn t1 t2 t3 w = ((v, Some e), c, w') \<and>
      ttl_Get c key t = ((0, False), c) \<and>
      fst (ttl_Do c key fn2 u1 u2 u3 w') = fst (fn2 w') \<and>
      snd (snd (ttl_Do c key fn2 u1 u2 u3 w')) = snd (fn2 w')) \<and>
   (ttl_Do c key fn t1 t2 t3 w = ((v, Some e), c', w') \<longrightarrow>
      fn w = ((v, Some e), w') \<and> c' = c \<and>
      \<not> snd (fst (ttl_Get c key t1)) \<and> \<not> snd (fst (ttl_unsafeGet c key t2))) \<and>
   (\<not> snd (fst (lru_Get d key')) \<and> fn' x = ((v', Some e'), x') \<longrightarrow>
      lru_Do d key' fn' x = ((v', Some e'), d, x') \<and>
      lru_Get d key' = ((0, False), d) \<and>
      fst (lru_Do d key' fn2' x') = fst (fn2' x') \<and>
      snd (snd (lru_Do d key' fn2' x')) = snd (fn2' x')) \<and>
   (lru_Do d key' fn' x = ((v', Some e'), d', x') \<longrightarrow>
      fn' x = ((v', Some e'), x') \<and> d' = d \<and> \<not> snd (fst (lru_Get d key')))"
proof (intro conjI impI)
  assume a: "\<not> snd (fst (ttl_Get c key t1)) \<and> \<not> snd (fst (ttl_unsafeGet c key t2)) \<and>
      fn w = ((v, Some e), w') \<and> t1 \<le> t \<and> t1 \<le> u1 \<and> t1 \<le> u2"
  then have m1: "\<not> snd (fst (ttl_unsafeGet c key t1))"
    and m2: "\<not> snd (fst (ttl_unsafeGet c key t2))"
    and f: "fn w = ((v, Some e), w')" by (simp_all add: ttl_Get_def)
  from a have later: "ttl_unsafeGet c key t = ((0, False), c)"
    "ttl_unsafeGet c key u1 = ((0, False), c)" "ttl_unsafeGet c key u2 = ((0, False), c)"
    using ttl_Get_miss_later[OF m1] by simp_all
  show "ttl_Do c key fn t1 t2 t3 w = ((v, Some e), c, w')"
    by (simp add: ttl_Do_miss[OF m1 m2] f)
  show "ttl_Get c key t = ((0, False), c)" using later(1) by (simp add: ttl_Get_def)
  have n1: "\<not> snd (fst (ttl_unsafeGet c key u1))" and n2: "\<not> snd (fst (ttl_unsafeGet c key u2))"
    using later by simp_all
  show "fst (ttl_Do c key fn2 u1 u2 u3 w') = fst (fn2 w')"
    by (rule ttl_Do_miss_runs(1)[OF n1 n2])
  show "snd (snd (ttl_Do c key fn2 u1 u2 u3 w')) = snd (fn2 w')"
    by (rule ttl_Do_miss_runs(2)[OF n1 n2])
next
  assume run: "ttl_Do c key fn t1 t2 t3 w = ((v, Some e), c', w')"
  show "fn w = ((v, Some e), w')" by (rule ttl_Do_error(3)[OF run])
  show "c' = c" by (rule ttl_Do_error(4)[OF run])
  show "\<not> snd (fst (ttl_Get c key t1))" using ttl_Do_error(1)[OF run] by (simp add: ttl_Get_def)
  show "\<not> snd (fst (ttl_unsafeGet c key t2))" by (rule ttl_Do_error(2)[OF run])
next
  assume a: "\<not> snd (fst (lru_Get d key')) \<and> fn' x = ((v', Some e'), x')"
  then have m: "\<not> snd (fst (lru_unsafeGet d key'))" and f: "fn' x = ((v', Some e'), x')"
    by (simp_all add: lru_Get_def)
  show "lru_Do d key' fn' x = ((v', Some e'), d, x')" by (simp add: lru_Do_miss[OF m] f)
  show "lru_Get d key' = ((0, False), d)"
    using lru_Get_miss_store[OF m] by (simp add: lru_Get_def)
  show "fst (lru_Do d key' fn2' x') = fst (fn2' x')" by (rule lru_Do_miss_runs(1)[OF m])
  show "snd (snd (lru_Do d key' fn2' x')) = snd (fn2' x')" by (rule lru_Do_miss_runs(2)[OF m])
next
  assume run: "lru_Do d key' fn' x = ((v', Some e'), d', x')"
  show "fn' x = ((v', Some e'), x')" by (rule lru_Do_error(2)[OF run])
  show "d' = d" by (rule lru_Do_error(3)[OF run])
  show "\<not> snd (fst (lru_Get d key'))" using lru_Do_error(1)[OF run] by (simp add: lru_Get_def)
qed

theorem Do_error_leaves_no_trace_witness:
  "(\<not> snd (fst (ttl_Get (ttl_Set (ttl_New 5 :: (string, int) ttl_Cache) ''k'' 9 0) ''k'' 6)) \<and>
    \<not> snd (fst (ttl_unsafeGet (ttl_Set (ttl_New 5 :: (string, int) ttl_Cache) ''k'' 9 0) ''k'' 7)) \<and>
    producer_err (42::int) ''boom'' 0 = ((42, Some ''boom''), 1) \<and>
    (6::int) \<le> 9 \<and> (6::int) \<le> 10 \<and> (6::int) \<le> 11) \<and>
   ttl_Do (ttl_Set (ttl_New 5 :: (string, int) ttl_Cache) ''k'' 9 0) ''k''
       (producer_err 42 ''boom'') 6 7 8 0
     = ((42, Some ''boom''), ttl_Set (ttl_New 5) ''k'' 9 0, 1) \<and>
   ttl_Get (ttl_Set (ttl_New 5 :: (string, int) ttl_Cache) ''k'' 9 0) ''k'' 9
     = ((0, False), ttl_Set (ttl_New 5) ''k'' 9 0) \<and>
   fst (ttl_Do (ttl_Set (ttl_New 5 :: (string, int) ttl_Cache) ''k'' 9 0) ''k''
          (producer_ok 7) 10 11 12 1) = (7, None) \<and>
   snd (snd (ttl_Do (ttl_Set (ttl_New 5 :: (string, int) ttl_Cache) ''k'' 9 0) ''k''
               (producer_ok 7) 10 11 12 1)) = 2 \<and>
   (\<not> snd (fst (lru_Get (lru_Set (lru_New 0 :: (string, int) lru_Cache) ''j'' 9) ''k'')) \<and>
    producer_err (42::int) ''boom'' 0 = ((42, Some ''boom''), 1)) \<and>
   lru_Do (lru_Set (lru_New 0 :: (string, int) lru_Cache) ''j'' 9) ''k'' (producer_err 42 ''boom'') 0
     = ((42, Some ''boom''), lru_Set (lru_New 0) ''j'' 9, 1) \<and>
   lru_Get (lru_Set (lru_New 0 :: (string, int) lru_Cache) ''j'' 9) ''k''
     = ((0, False), lru_Set (lru_New 0) ''j'' 9) \<and>
   fst (lru_Do (lru_Set (lru_New 0 :: (string, int) lru_Cache) ''j'' 9) ''k'' (producer_ok 7) 1)
     = (7, None) \<and>
   snd (snd (lru_Do (lru_Set (lru_New 0 :: (string, int) lru_Cache) ''j'' 9) ''k''
               (producer_ok 7) 1)) = 2"
proof -
  note inst = Do_error_leaves_no_trace [where c = "ttl_Set (ttl_New 5 :: (string, int) ttl_Cache) ''k'' 9 0"
      and key = "''k''" and ?t1.0 = 6 and ?t2.0 = 7 and ?t3.0 = 8 and fn = "producer_err 42 ''boom''"
      and w = 0 and v = 42 and e = "''boom''" and w' = 1 and t = 9 and ?u1.0 = 10 and ?u2.0 = 11
      and ?u3.0 = 12 and ?fn2.0 = "producer_ok 7"
      and c' = "ttl_Set (ttl_New 5 :: (string, int) ttl_Cache) ''k'' 9 0"
      and d = "lru_Set (lru_New 0 :: (string, int) lru_Cache) ''j'' 9" and key' = "''k''"
      and fn' = "producer_err 42 ''boom''" and x = 0 and v' = 42 and e' = "''boom''" and x' = 1
      and fn2' = "producer_ok 7" and d' = "lru_Set (lru_New 0 :: (string, int) lru_Cache) ''j'' 9"]
  have h1: "\<not> snd (fst (ttl_Get (ttl_Set (ttl_New 5 :: (string, int) ttl_Cache) ''k'' 9 0) ''k'' 6)) \<and>
    \<not> snd (fst (ttl_unsafeGet (ttl_Set (ttl_New 5 :: (string, int) ttl_Cache) ''k'' 9 0) ''k'' 7)) \<and>
    producer_err (42::int) ''boom'' 0 = ((42, Some ''boom''), 1) \<and>
    (6::int) \<le> 9 \<and> (6::int) \<le> 10 \<and> (6::int) \<le> 11"
    by (simp add: ttl_Get_def ttl_unsafeGet_def ttl_Set_def ttl_unsafeSet_def ttl_New_def
        producer_err_def)
  have k: "''k'' \<notin> set (lru_keys (lru_Set (lru_New 0 :: (string, int) lru_Cache) ''j'' 9))"
    using lru_unsafeSet_keys [of "lru_New 0 :: (string, int) lru_Cache" "''j''" 9]
    by (simp add: lru_Set_def lru_New_keys)
  have h2: "\<not> snd (fst (lru_Get (lru_Set (lru_New 0 :: (string, int) lru_Cache) ''j'' 9) ''k'')) \<and>
    producer_err (42::int) ''boom'' 0 = ((42, Some ''boom''), 1)"
    using lru_absent_miss [OF k] by (simp add: lru_Get_def producer_err_def)
  note r1 = inst [THEN conjunct1, THEN mp, OF h1]
  note r2 = inst [THEN conjunct2, THEN conjunct2, THEN conjunct1, THEN mp, OF h2]
  have p: "fst (producer_ok (7::int) 1) = (7, None)" "snd (producer_ok (7::int) 1) = 2"
    by (simp_all add: producer_ok_def)
  from r1 p have a: "ttl_Do (ttl_Set (ttl_New 5 :: (string, int) ttl_Cache) ''k'' 9 0) ''k''
       (producer_err 42 ''boom'') 6 7 8 0
     = ((42, Some ''boom''), ttl_Set (ttl_New 5) ''k'' 9 0, 1)"
    and b: "ttl_Get (ttl_Set (ttl_New 5 :: (string, int) ttl_Cache) ''k'' 9 0) ''k'' 9
     = ((0, False), ttl_Set (ttl_New 5) ''k'' 9 0)"
    and c: "fst (ttl_Do (ttl_Set (ttl_New 5 :: (string, int) ttl_Cache) ''k'' 9 0) ''k''
          (producer_ok 7) 10 11 12 1) = (7, None)"
    and d: "snd (snd (ttl_Do (ttl_Set (ttl_New 5 :: (string, int) ttl_Cache) ''k'' 9 0) ''k''
               (producer_ok 7) 10 11 12 1)) = 2"
    by (simp_all only:)
  from r2 p have a': "lru_Do (lru_Set (lru_New 0 :: (string, int) lru_Cache) ''j'' 9) ''k''
       (producer_err 42 ''boom'') 0 = ((42, Some ''boom''), lru_Set (lru_New 0) ''j'' 9, 1)"
    and b': "lru_Get (lru_Set (lru_New 0 :: (string, int) lru_Cache) ''j'' 9) ''k''
     = ((0, False), lru_Set (lru_New 0) ''j'' 9)"
    and c': "fst (lru_Do (lru_Set (lru_New 0 :: (string, int) lru_Cache) ''j'' 9) ''k'' (producer_ok 7) 1)
     = (7, None)"
    and d': "snd (snd (lru_Do (lru_Set (lru_New 0 :: (string, int) lru_Cache) ''j'' 9) ''k''
               (producer_ok 7) 1)) = 2"
    by (simp_all only:)
  from h1 h2 a b c d a' b' c' d' show ?thesis by blast
qed

section \<open>Do: check, then compute\<close>

text \<open>
  Claim C3, as stated, asks that the value a successful producer returns be retrievable by
  a subsequent \<^verbatim>\<open>Get\<close> in both stores. In a TTL Store whose ttl is \<open>-1\<close> the value is
  stored with an expiry before the write, and no \<^verbatim>\<open>Get\<close> at or after the write returns
  it.
\<close>

theorem Do_stored_value_not_retrievable:
  "fst (ttl_Do (ttl_New (-1) :: (string, int) ttl_Cache) ''k'' (producer_ok 7) 0 0 0 0) = (7, None) \<and>
   snd (snd (ttl_Do (ttl_New (-1) :: (string, int) ttl_Cache) ''k'' (producer_ok 7) 0 0 0 0)) = 1 \<and>
   fst (ttl_Get (fst (snd (ttl_Do (ttl_New (-1) :: (string, int) ttl_Cache) ''k''
                              (producer_ok 7) 0 0 0 0))) ''k'' 0) = (0, False) \<and>
   fst (ttl_Get (fst (snd (ttl_Do (ttl_New (-1) :: (string, int) ttl_Cache) ''k''
                              (producer_ok 7) 0 0 0 0))) ''k'' 1) = (0, False)"
  by (simp add: ttl_Do_def ttl_Get_def ttl_unsafeGet_def ttl_unsafeSet_def ttl_New_def
      producer_ok_def)


text \<open>
  Claim C3, amended. In both stores \<^verbatim>\<open>Do\<close> returns the cached value of a key that is
  present (and, in the TTL Store, not expired at the first read) with a nil error, without
  running the producer. For a key that is absent (in the TTL Store: not in the map, or
  with an entry that is expired at both reads) the producer runs once; when it succeeds
  its value is returned with a nil error and stored by \<^verbatim>\<open>unsafeSet\<close>. In the Recency
  Store a \<^verbatim>\<open>Get\<close> that follows returns it. In the TTL Store it is stored with the expiry
  \<open>u3 + ttl\<close>, \<open>u3\<close> being the time of the write: a \<^verbatim>\<open>Get\<close> at a time up to that
  expiry returns it, a later one returns \<open>(zero, false)\<close>.
\<close>

theorem Do_check_then_compute:
  "(ttl_data c key = Some en \<and> \<not> ttl_expireAt en < t1 \<longrightarrow>
      ttl_Do c key fn t1 t2 t3 w = ((ttl_value en, None), c, w)) \<and>
   (ttl_data c0 key = None \<or>
    (ttl_data c0 key = Some en0 \<and> ttl_expireAt en0 < u1 \<and> ttl_expireAt en0 < u2) \<longrightarrow>
      snd (snd (ttl_Do c0 key fn u1 u2 u3 w)) = snd (fn w) \<and>
      (fst (fn w) = (v, None) \<longrightarrow>
         fst (ttl_Do c0 key fn u1 u2 u3 w) = (v, None) \<and>
         fst (snd (ttl_Do c0 key fn u1 u2 u3 w)) = ttl_unsafeSet c0 key v u3 \<and>
         ttl_data (fst (snd (ttl_Do c0 key fn u1 u2 u3 w))) key
           = Some \<lparr>ttl_value = v, ttl_expireAt = u3 + ttl_ttl c0\<rparr> \<and>
         (t \<le> u3 + ttl_ttl c0 \<longrightarrow>
            fst (ttl_Get (fst (snd (ttl_Do c0 key fn u1 u2 u3 w))) key t) = (v, True)) \<and>
         (u3 + ttl_ttl c0 < t' \<longrightarrow>
            fst (ttl_Get (fst (snd (ttl_Do c0 key fn u1 u2 u3 w))) key t') = (0, False)))) \<and>
   (lru_lookup d k = Some x \<longrightarrow>
      fst (lru_Do d k g u) = (x, None) \<and> snd (snd (lru_Do d k g u)) = u \<and>
      lru_lookup (fst (snd (lru_Do d k g u))) = lru_lookup d) \<and>
   (k \<notin> set (lru_keys d0) \<longrightarrow>
      snd (snd (lru_Do d0 k g u)) = snd (g u) \<and>
      (fst (g u) = (y, None) \<longrightarrow>
         fst (lru_Do d0 k g u) = (y, None) \<and>
         fst (snd (lru_Do d0 k g u)) = lru_unsafeSet d0 k y \<and>
         fst (lru_Get (fst (snd (lru_Do d0 k g u))) k) = (y, True)))"
proof (intro conjI impI)
  assume "ttl_data c key = Some en \<and> \<not> ttl_expireAt en < t1"
  then show "ttl_Do c key fn t1 t2 t3 w = ((ttl_value en, None), c, w)"
    by (simp add: ttl_Do_present)
next
  assume a: "ttl_data c0 key = None \<or>
    (ttl_data c0 key = Some en0 \<and> ttl_expireAt en0 < u1 \<and> ttl_expireAt en0 < u2)"
  show "snd (snd (ttl_Do c0 key fn u1 u2 u3 w)) = snd (fn w)"
    by (rule ttl_Do_miss_runs(2)[OF ttl_gone_miss(1)[OF a] ttl_gone_miss(2)[OF a]])
  assume ok: "fst (fn w) = (v, None)"
  have run: "ttl_Do c0 key fn u1 u2 u3 w = ((v, None), ttl_unsafeSet c0 key v u3, snd (fn w))"
    using a ok by (rule ttl_Do_gone_ok)
  show "fst (ttl_Do c0 key fn u1 u2 u3 w) = (v, None)" by (simp add: run)
  show "fst (snd (ttl_Do c0 key fn u1 u2 u3 w)) = ttl_unsafeSet c0 key v u3" by (simp add: run)
  show "ttl_data (fst (snd (ttl_Do c0 key fn u1 u2 u3 w))) key
           = Some \<lparr>ttl_value = v, ttl_expireAt = u3 + ttl_ttl c0\<rparr>"
    by (simp add: run ttl_unsafeSet_def)
  { assume "t \<le> u3 + ttl_ttl c0"
    then show "fst (ttl_Get (fst (snd (ttl_Do c0 key fn u1 u2 u3 w))) key t) = (v, True)"
      by (simp add: run ttl_Get_after_Set) }
  { assume "u3 + ttl_ttl c0 < t'"
    then show "fst (ttl_Get (fst (snd (ttl_Do c0 key fn u1 u2 u3 w))) key t') = (0, False)"
      by (simp add: run ttl_Get_after_Set) }
next
  assume a: "lru_lookup d k = Some x"
  show "fst (lru_Do d k g u) = (x, None)" by (rule lru_Do_present(1)[OF a])
  show "snd (snd (lru_Do d k g u)) = u" by (rule lru_Do_present(2)[OF a])
  show "lru_lookup (fst (snd (lru_Do d k g u))) = lru_lookup d" by (rule lru_Do_present(3)[OF a])
next
  assume a: "k \<notin> set (lru_keys d0)"
  show "snd (snd (lru_Do d0 k g u)) = snd (g u)"
    by (rule lru_Do_miss_runs(2)[OF lru_absent_miss[OF a]])
  assume ok: "fst (g u) = (y, None)"
  have run: "lru_Do d0 k g u = ((y, None), lru_unsafeSet d0 k y, snd (g u))"
    using a ok by (rule lru_Do_absent_ok)
  show "fst (lru_Do d0 k g u) = (y, None)" by (simp add: run)
  show "fst (snd (lru_Do d0 k g u)) = lru_unsafeSet d0 k y" by (simp add: run)
  show "fst (lru_Get (fst (snd (lru_Do d0 k g u))) k) = (y, True)"
    by (simp add: run lru_Get_after_Set)
qed

theorem Do_check_then_compute_witness:
  "(ttl_data (ttl_Set (ttl_New 5 :: (string, int) ttl_Cache) ''k'' 9 0) ''k'' = Some \<lparr>ttl_value = 9, ttl_expireAt = 5\<rparr> \<and>
    \<not> ttl_expireAt \<lparr>ttl_value = 9::int, ttl_expireAt = 5\<rparr> < 1) \<and>
   ttl_Do (ttl_Set (ttl_New 5 :: (string, int) ttl_Cache) ''k'' 9 0) ''k'' (producer_ok 7) 1 2 3 0 = ((9, None), ttl_Set (ttl_New 5) ''k'' 9 0, 0) \<and>
   (ttl_data (ttl_Set (ttl_New 5 :: (string, int) ttl_Cache) ''k'' 9 0) ''k'' = Some \<lparr>ttl_value = 9, ttl_expireAt = 5\<rparr> \<and>
    ttl_expireAt \<lparr>ttl_value = 9::int, ttl_expireAt = 5\<rparr> < 6 \<and>
    ttl_expireAt \<lparr>ttl_value = 9::int, ttl_expireAt = 5\<rparr> < 7) \<and>
   fst (producer_ok (7::int) 0) = (7, None) \<and>
   (13::int) \<le> 8 + ttl_ttl (ttl_Set (ttl_New 5 :: (string, int) ttl_Cache) ''k'' 9 0) \<and> 8 + ttl_ttl (ttl_Set (ttl_New 5 :: (string, int) ttl_Cache) ''k'' 9 0) < 14 \<and>
   snd (snd (ttl_Do (ttl_Set (ttl_New 5 :: (string, int) ttl_Cache) ''k'' 9 0) ''k'' (producer_ok 7) 6 7 8 0)) = 1 \<and>
   fst (ttl_Do (ttl_Set (ttl_New 5 :: (string, int) ttl_Cache) ''k'' 9 0) ''k'' (producer_ok 7) 6 7 8 0) = (7, None) \<and>
   ttl_data (fst (snd (ttl_Do (ttl_Set (ttl_New 5 :: (string, int) ttl_Cache) ''k'' 9 0) ''k'' (producer_ok 7) 6 7 8 0))) ''k'' = Some \<lparr>ttl_value = 7, ttl_expireAt = 13\<rparr> \<and>
   fst (ttl_Get (fst (snd (ttl_Do (ttl_Set (ttl_New 5 :: (string, int) ttl_Cache) ''k'' 9 0) ''k'' (producer_ok 7) 6 7 8 0))) ''k'' 13) = (7, True) \<and>
   fst (ttl_Get (fst (snd (ttl_Do (ttl_Set (ttl_New 5 :: (string, int) ttl_Cache) ''k'' 9 0) ''k'' (producer_ok 7) 6 7 8 0))) ''k'' 14) = (0, False) \<and>
   lru_lookup (lru_Set (lru_New 0 :: (string, int) lru_Cache) ''k'' 9) ''k'' = Some 9 \<and>
   fst (lru_Do (lru_Set (lru_New 0 :: (string, int) lru_Cache) ''k'' 9) ''k'' (producer_ok 7) 0)
      = (9, None) \<and>
   snd (snd (lru_Do (lru_Set (lru_New 0 :: (string, int) lru_Cache) ''k'' 9) ''k''
               (producer_ok 7) 0)) = 0 \<and>
   ''k'' \<notin> set (lru_keys (lru_New 0 :: (string, int) lru_Cache)) \<and>
   snd (snd (lru_Do (lru_New 0 :: (string, int) lru_Cache) ''k'' (producer_ok 7) 0)) = 1 \<and>
   fst (lru_Do (lru_New 0 :: (string, int) lru_Cache) ''k'' (producer_ok 7) 0) = (7, None) \<and>
   fst (lru_Get (fst (snd (lru_Do (lru_New 0 :: (string, int) lru_Cache) ''k''
                              (producer_ok 7) 0))) ''k'') = (7, True)"
proof -
  note inst = Do_check_then_compute [where c = "(ttl_Set (ttl_New 5 :: (string, int) ttl_Cache) ''k'' 9 0)"
      and key = "''k''" and en = "\<lparr>ttl_value = 9, ttl_expireAt = 5\<rparr>" and ?t1.0 = 1 and ?t2.0 = 2
      and ?t3.0 = 3 and fn = "producer_ok 7" and w = 0 and ?c0.0 = "(ttl_Set (ttl_New 5 :: (string, int) ttl_Cache) ''k'' 9 0)"
      and ?en0.0 = "\<lparr>ttl_value = 9, ttl_expireAt = 5\<rparr>" and ?u1.0 = 6 and ?u2.0 = 7 and ?u3.0 = 8
      and v = 7 and t = 13 and t' = 14
      and d = "lru_Set (lru_New 0 :: (string, int) lru_Cache) ''k'' 9" and k = "''k''"
      and x = 9 and g = "producer_ok 7" and u = 0 and ?d0.0 = "lru_New 0" and y = 7]
  have e: "ttl_data (ttl_Set (ttl_New 5 :: (string, int) ttl_Cache) ''k'' 9 0) ''k'' = Some \<lparr>ttl_value = 9, ttl_expireAt = 5\<rparr>"
    by (simp add: ttl_Set_def ttl_unsafeSet_def ttl_New_def)
  have h1: "ttl_data (ttl_Set (ttl_New 5 :: (string, int) ttl_Cache) ''k'' 9 0) ''k'' = Some \<lparr>ttl_value = 9, ttl_expireAt = 5\<rparr> \<and>
            \<not> ttl_expireAt \<lparr>ttl_value = 9::int, ttl_expireAt = 5\<rparr> < 1"
    using e by simp
  have x2: "ttl_data (ttl_Set (ttl_New 5 :: (string, int) ttl_Cache) ''k'' 9 0) ''k'' = Some \<lparr>ttl_value = 9, ttl_expireAt = 5\<rparr> \<and>
            ttl_expireAt \<lparr>ttl_value = 9::int, ttl_expireAt = 5\<rparr> < 6 \<and>
            ttl_expireAt \<lparr>ttl_value = 9::int, ttl_expireAt = 5\<rparr> < 7"
    using e by simp
  then have h2: "ttl_data (ttl_Set (ttl_New 5 :: (string, int) ttl_Cache) ''k'' 9 0) ''k'' = None \<or>
           (ttl_data (ttl_Set (ttl_New 5 :: (string, int) ttl_Cache) ''k'' 9 0) ''k'' = Some \<lparr>ttl_value = 9, ttl_expireAt = 5\<rparr> \<and>
            ttl_expireAt \<lparr>ttl_value = 9::int, ttl_expireAt = 5\<rparr> < 6 \<and>
            ttl_expireAt \<lparr>ttl_value = 9::int, ttl_expireAt = 5\<rparr> < 7)" by (rule disjI2)
  have h3: "fst (producer_ok (7::int) 0) = (7, None)"
    and p: "snd (producer_ok (7::int) 0) = 1" by (simp_all add: producer_ok_def)
  have h4: "(13::int) \<le> 8 + ttl_ttl (ttl_Set (ttl_New 5 :: (string, int) ttl_Cache) ''k'' 9 0)"
    and h5: "8 + ttl_ttl (ttl_Set (ttl_New 5 :: (string, int) ttl_Cache) ''k'' 9 0) < 14"
    by (simp_all add: ttl_Set_def ttl_unsafeSet_def ttl_New_def)
  have h6: "lru_lookup (lru_Set (lru_New 0 :: (string, int) lru_Cache) ''k'' 9) ''k'' = Some 9"
    by (simp add: lru_Set_def lru_unsafeSet_lookup)
  have h7: "''k'' \<notin> set (lru_keys (lru_New 0 :: (string, int) lru_Cache))"
    by (simp add: lru_keys_def lru_New_def list_New_def)
  note r1 = inst [THEN conjunct1, THEN mp, OF h1]
  note m = inst [THEN conjunct2, THEN conjunct1, THEN mp, OF h2]
  note m1 = m [THEN conjunct1]
  note ok = m [THEN conjunct2, THEN mp, OF h3]
  note ok1 = ok [THEN conjunct1]
  note ok3 = ok [THEN conjunct2, THEN conjunct2, THEN conjunct1]
  note ok4 = ok [THEN conjunct2, THEN conjunct2, THEN conjunct2, THEN conjunct1, THEN mp, OF h4]
  note ok5 = ok [THEN conjunct2, THEN conjunct2, THEN conjunct2, THEN conjunct2, THEN mp, OF h5]
  note l = inst [THEN conjunct2, THEN conjunct2, THEN conjunct1, THEN mp, OF h6]
  note n = inst [THEN conjunct2, THEN conjunct2, THEN conjunct2, THEN mp, OF h7]
  note n1 = n [THEN conjunct1]
  note nok = n [THEN conjunct2, THEN mp, OF h3]
  have r1': "ttl_Do (ttl_Set (ttl_New 5 :: (string, int) ttl_Cache) ''k'' 9 0) ''k'' (producer_ok 7) 1 2 3 0 = ((9, None), ttl_Set (ttl_New 5) ''k'' 9 0, 0)"
    using r1 by simp
  have m1': "snd (snd (ttl_Do (ttl_Set (ttl_New 5 :: (string, int) ttl_Cache) ''k'' 9 0) ''k'' (producer_ok 7) 6 7 8 0)) = 1" using m1 p by simp
  have ok3': "ttl_data (fst (snd (ttl_Do (ttl_Set (ttl_New 5 :: (string, int) ttl_Cache) ''k'' 9 0) ''k'' (producer_ok 7) 6 7 8 0))) ''k'' = Some \<lparr>ttl_value = 7, ttl_expireAt = 13\<rparr>"
    using ok3 by (simp add: ttl_Set_def ttl_unsafeSet_def ttl_New_def)
  have n1': "snd (snd (lru_Do (lru_New 0 :: (string, int) lru_Cache) ''k'' (producer_ok 7) 0)) = 1"
    using n1 p by simp
  from h1 x2 h3 h4 h5 h6 h7 r1' m1' ok1 ok3' ok4 ok5 l n1' nok show ?thesis by blast
qed

section \<open>The Recency Store: order, growth and construction\<close>

text \<open>
  Claim C4, as stated, gives \<open>a, c, b\<close> as the front-to-back order after
  \<^verbatim>\<open>Set("a",1)\<close>, \<^verbatim>\<open>Set("b",2)\<close>, \<^verbatim>\<open>Get("a")\<close>, \<^verbatim>\<open>Set("c",3)\<close>. The \<^verbatim>\<open>Get\<close>
  returns \<open>(1, true)\<close>, and the order is another one.
\<close>

theorem lru_scenario_order_not_a_c_b:
  "fst (lru_Get (lru_Set (lru_Set (lru_New 0 :: (string, int) lru_Cache) ''a'' 1) ''b'' 2) ''a'')
     = (1, True) \<and>
   lru_keys (lru_Set (snd (lru_Get (lru_Set (lru_Set (lru_New 0 :: (string, int) lru_Cache)
       ''a'' 1) ''b'' 2) ''a'')) ''c'' 3) \<noteq> [''a'', ''c'', ''b'']"
  by code_simp

text \<open>
  Claim C4, amended. After that sequence, in which \<^verbatim>\<open>Get("a")\<close> returns \<open>(1, true)\<close>, the
  front-to-back order of the list is \<open>c, a, b\<close>: the \<^verbatim>\<open>Get\<close> moves \<open>a\<close> to the front
  and the \<^verbatim>\<open>Set\<close> of the new key \<open>c\<close> inserts it before the front element.
\<close>

theorem lru_scenario_order:
  "fst (lru_Get (lru_Set (lru_Set (lru_New 0 :: (string, int) lru_Cache) ''a'' 1) ''b'' 2) ''a'')
     = (1, True) \<and>
   lru_keys (lru_Set (snd (lru_Get (lru_Set (lru_Set (lru_New 0 :: (string, int) lru_Cache)
       ''a'' 1) ''b'' 2) ''a'')) ''c'' 3) = [''c'', ''a'', ''b'']"
  by code_simp

text \<open>
  Claim C7. \<^verbatim>\<open>Set\<close> of \<open>N\<close> distinct keys on a new Recency Store, for any \<open>N\<close>, leaves
  exactly \<open>N\<close> entries, those keys, and \<^verbatim>\<open>Get\<close> returns the value of each. None of
  \<^verbatim>\<open>Get\<close>, \<^verbatim>\<open>Set\<close>, \<^verbatim>\<open>Do\<close>, \<^verbatim>\<open>SetFromIter\<close> and \<^verbatim>\<open>SetFromMap\<close> removes an entry:
  every key of the store is a key of the store they leave, which has at least as many
  entries; and \<^verbatim>\<open>Get\<close> changes no value.
\<close>

theorem lru_no_eviction:
  "(distinct (map fst kvs) \<longrightarrow>
      length (lru_entries (lru_Sets (lru_New T) kvs)) = length kvs \<and>
      set (lru_keys (lru_Sets (lru_New T) kvs)) = fst ` set kvs \<and>
      (\<forall>(k, v) \<in> set kvs. fst (lru_Get (lru_Sets (lru_New T) kvs) k) = (v, True))) \<and>
   (set (lru_keys c) \<subseteq> set (lru_keys (snd (lru_Get c key))) \<and>
    length (lru_entries c) \<le> length (lru_entries (snd (lru_Get c key))) \<and>
    lru_lookup (snd (lru_Get c key)) = lru_lookup c) \<and>
   (set (lru_keys c) \<subseteq> set (lru_keys (lru_Set c key v)) \<and>
    length (lru_entries c) \<le> length (lru_entries (lru_Set c key v))) \<and>
   (set (lru_keys c) \<subseteq> set (lru_keys (fst (snd (lru_Do c key fn w)))) \<and>
    length (lru_entries c) \<le> length (lru_entries (fst (snd (lru_Do c key fn w))))) \<and>
   (set (lru_keys c) \<subseteq> set (lru_keys (lru_SetFromIter c xs)) \<and>
    length (lru_entries c) \<le> length (lru_entries (lru_SetFromIter c xs))) \<and>
   (set (lru_keys c) \<subseteq> set (lru_keys (lru_SetFromMap c xs)) \<and>
    length (lru_entries c) \<le> length (lru_entries (lru_SetFromMap c xs)))"
proof (intro conjI impI)
  assume d: "distinct (map fst kvs)"
  have e: "lru_entries (lru_New T :: ('a, 'b) lru_Cache) = []"
    by (simp add: lru_New_def list_New_def)
  from lru_Sets_length[OF d, of "lru_New T"]
  show "length (lru_entries (lru_Sets (lru_New T :: ('a, 'b) lru_Cache) kvs)) = length kvs"
    by (simp add: lru_New_keys e)
  show "set (lru_keys (lru_Sets (lru_New T :: ('a, 'b) lru_Cache) kvs)) = fst ` set kvs"
    by (simp add: lru_Sets_keys lru_New_keys)
  show "\<forall>(k, v) \<in> set kvs. fst (lru_Get (lru_Sets (lru_New T :: ('a, 'b) lru_Cache) kvs) k) = (v, True)"
    using d by (auto intro!: lru_Get_Sets last_Set_distinct)
next
  show "lru_lookup (snd (lru_Get c key)) = lru_lookup c"
    by (simp add: lru_Get_def lru_unsafeGet_lookup)
qed (simp_all add: lru_Get_keeps lru_Set_keeps lru_Do_keeps lru_SetFromIter_keeps lru_SetFromMap_def)

theorem lru_no_eviction_witness:
  "distinct (map fst [(''a'', 1::int), (''b'', 2), (''c'', 3)]) \<and>
   length (lru_entries (lru_Sets (lru_New 0 :: (string, int) lru_Cache)
      [(''a'', 1), (''b'', 2), (''c'', 3)])) = 3 \<and>
   fst (lru_Get (lru_Sets (lru_New 0 :: (string, int) lru_Cache)
      [(''a'', 1), (''b'', 2), (''c'', 3)]) ''a'') = (1, True) \<and>
   fst (lru_Get (lru_Sets (lru_New 0 :: (string, int) lru_Cache)
      [(''a'', 1), (''b'', 2), (''c'', 3)]) ''b'') = (2, True) \<and>
   fst (lru_Get (lru_Sets (lru_New 0 :: (string, int) lru_Cache)
      [(''a'', 1), (''b'', 2), (''c'', 3)]) ''c'') = (3, True)"
proof -
  have h: "distinct (map fst [(''a'', 1::int), (''b'', 2), (''c'', 3)])" by simp
  note part = lru_no_eviction [where kvs = "[(''a'', 1::int), (''b'', 2), (''c'', 3)]" and T = 0,
      THEN conjunct1, THEN mp, OF h]
  have len: "length (lru_entries (lru_Sets (lru_New 0 :: (string, int) lru_Cache)
      [(''a'', 1), (''b'', 2), (''c'', 3)])) = 3"
    using part [THEN conjunct1] by simp
  have all: "\<forall>(k, v) \<in> set [(''a'', 1::int), (''b'', 2), (''c'', 3)].
      fst (lru_Get (lru_Sets (lru_New 0 :: (string, int) lru_Cache)
        [(''a'', 1), (''b'', 2), (''c'', 3)]) k) = (v, True)"
    by (rule part [THEN conjunct2, THEN conjunct2])
  from all have gets:
    "fst (lru_Get (lru_Sets (lru_New 0 :: (string, int) lru_Cache)
        [(''a'', 1), (''b'', 2), (''c'', 3)]) ''a'') = (1, True)"
    "fst (lru_Get (lru_Sets (lru_New 0 :: (string, int) lru_Cache)
        [(''a'', 1), (''b'', 2), (''c'', 3)]) ''b'') = (2, True)"
    "fst (lru_Get (lru_Sets (lru_New 0 :: (string, int) lru_Cache)
        [(''a'', 1), (''b'', 2), (''c'', 3)]) ''c'') = (3, True)"
    by simp_all
  from h len gets show ?thesis by blast
qed


section \<open>The last Set wins\<close>

text \<open>
  Claim C5, as stated, asks that \<^verbatim>\<open>Get(k)\<close> return the value of the most recent
  \<^verbatim>\<open>Set(k, v)\<close> in both stores. In a TTL Store whose ttl is \<open>-1\<close> a \<^verbatim>\<open>Get\<close> at the
  time of the \<^verbatim>\<open>Set\<close>, or later, returns \<open>(zero, false)\<close>.
\<close>

theorem ttl_last_Set_not_returned:
  "fst (ttl_Get (ttl_Sets (ttl_New (-1) :: (string, int) ttl_Cache) [(''k'', 1, 0)]) ''k'' 0)
     = (0, False) \<and>
   fst (ttl_Get (ttl_Sets (ttl_New (-1) :: (string, int) ttl_Cache) [(''k'', 1, 0)]) ''k'' 1)
     = (0, False)"
  by (simp add: ttl_Sets_def ttl_Set_def ttl_unsafeSet_def ttl_Get_def ttl_unsafeGet_def ttl_New_def)

text \<open>
  Claim C5, amended. In the Recency Store a sequence of \<^verbatim>\<open>Set\<close> calls keeps the keys of
  the list distinct (and they are distinct in a new store), and \<^verbatim>\<open>Get(k)\<close> returns the
  value of the most recent \<^verbatim>\<open>Set(k, v)\<close>. In the TTL Store, whose map holds one entry
  for a key by its type, after a sequence of \<^verbatim>\<open>Set\<close> calls the entry of \<open>k\<close> is the value
  of the most recent \<^verbatim>\<open>Set(k, v)\<close> with the expiry \<open>t0 + ttl\<close>, \<open>t0\<close> being the time of
  that call; \<^verbatim>\<open>Get(k)\<close> returns that value at times up to the expiry and
  \<open>(zero, false)\<close> after it.
\<close>

theorem last_Set_wins:
  "(distinct (lru_keys c) \<longrightarrow> distinct (lru_keys (lru_Sets c kvs))) \<and>
   distinct (lru_keys (lru_Sets (lru_New T) kvs)) \<and>
   (last_Set kvs k = Some v \<longrightarrow> fst (lru_Get (lru_Sets c kvs) k) = (v, True)) \<and>
   (last_Set kvts k' = Some (v', t0) \<longrightarrow>
      ttl_data (ttl_Sets c' kvts) k' = Some \<lparr>ttl_value = v', ttl_expireAt = t0 + ttl_ttl c'\<rparr> \<and>
      (t \<le> t0 + ttl_ttl c' \<longrightarrow> fst (ttl_Get (ttl_Sets c' kvts) k' t) = (v', True)) \<and>
      (t0 + ttl_ttl c' < t' \<longrightarrow> fst (ttl_Get (ttl_Sets c' kvts) k' t') = (0, False)))"
proof (intro conjI impI)
  show "distinct (lru_keys (lru_Sets (lru_New T) kvs))"
    by (rule lru_Sets_distinct) (simp add: lru_New_keys)
next
  assume "distinct (lru_keys c)"
  then show "distinct (lru_keys (lru_Sets c kvs))" by (rule lru_Sets_distinct)
next
  assume "last_Set kvs k = Some v"
  then show "fst (lru_Get (lru_Sets c kvs) k) = (v, True)" by (rule lru_Get_Sets)
next
  assume a: "last_Set kvts k' = Some (v', t0)"
  show "ttl_data (ttl_Sets c' kvts) k' = Some \<lparr>ttl_value = v', ttl_expireAt = t0 + ttl_ttl c'\<rparr>"
    by (rule ttl_Get_Sets(1)[OF a])
  { assume "t \<le> t0 + ttl_ttl c'"
    then show "fst (ttl_Get (ttl_Sets c' kvts) k' t) = (v', True)"
      by (simp add: ttl_Get_Sets(2)[OF a]) }
  { assume "t0 + ttl_ttl c' < t'"
    then show "fst (ttl_Get (ttl_Sets c' kvts) k' t') = (0, False)"
      by (simp add: ttl_Get_Sets(2)[OF a]) }
qed

theorem last_Set_wins_witness:
  "distinct (lru_keys (lru_New 0 :: (string, int) lru_Cache)) \<and>
   distinct (lru_keys (lru_Sets (lru_New 0 :: (string, int) lru_Cache)
      [(''a'', 1), (''b'', 2), (''a'', 3)])) \<and>
   last_Set [(''a'', 1::int), (''b'', 2), (''a'', 3)] ''a'' = Some 3 \<and>
   fst (lru_Get (lru_Sets (lru_New 0 :: (string, int) lru_Cache)
      [(''a'', 1), (''b'', 2), (''a'', 3)]) ''a'') = (3, True) \<and>
   last_Set [(''a'', 1::int, 0::int), (''b'', 2, 1), (''a'', 3, 2)] ''a'' = Some (3, 2) \<and>
   (6::int) \<le> 2 + ttl_ttl (ttl_New 5 :: (string, int) ttl_Cache) \<and>
   2 + ttl_ttl (ttl_New 5 :: (string, int) ttl_Cache) < 8 \<and>
   fst (ttl_Get (ttl_Sets (ttl_New 5 :: (string, int) ttl_Cache)
      [(''a'', 1, 0), (''b'', 2, 1), (''a'', 3, 2)]) ''a'' 6) = (3, True) \<and>
   fst (ttl_Get (ttl_Sets (ttl_New 5 :: (string, int) ttl_Cache)
      [(''a'', 1, 0), (''b'', 2, 1), (''a'', 3, 2)]) ''a'' 8) = (0, False)"
proof -
  note inst = last_Set_wins [where c = "lru_New 0 :: (string, int) lru_Cache"
      and kvs = "[(''a'', 1), (''b'', 2), (''a'', 3)]" and k = "''a''" and v = 3
      and kvts = "[(''a'', 1, 0), (''b'', 2, 1), (''a'', 3, 2)]" and k' = "''a''" and v' = 3
      and ?t0.0 = 2 and c' = "ttl_New 5 :: (string, int) ttl_Cache" and t = 6 and t' = 8]
  have h1: "distinct (lru_keys (lru_New 0 :: (string, int) lru_Cache))"
    by (simp add: lru_New_keys)
  have h2: "last_Set [(''a'', 1::int), (''b'', 2), (''a'', 3)] ''a'' = Some 3"
    by (simp add: last_Set_def)
  have h3: "last_Set [(''a'', 1::int, 0::int), (''b'', 2, 1), (''a'', 3, 2)] ''a'' = Some (3, 2)"
    by (simp add: last_Set_def)
  have h4: "(6::int) \<le> 2 + ttl_ttl (ttl_New 5 :: (string, int) ttl_Cache)"
    and h5: "2 + ttl_ttl (ttl_New 5 :: (string, int) ttl_Cache) < 8"
    by (simp_all add: ttl_New_def)
  from inst h1 have r1: "distinct (lru_keys (lru_Sets (lru_New 0 :: (string, int) lru_Cache)
      [(''a'', 1), (''b'', 2), (''a'', 3)]))" by blast
  from inst h2 have r2: "fst (lru_Get (lru_Sets (lru_New 0 :: (string, int) lru_Cache)
      [(''a'', 1), (''b'', 2), (''a'', 3)]) ''a'') = (3, True)" by blast
  from inst h3 h4 h5
  have r3: "fst (ttl_Get (ttl_Sets (ttl_New 5 :: (string, int) ttl_Cache)
      [(''a'', 1, 0), (''b'', 2, 1), (''a'', 3, 2)]) ''a'' 6) = (3, True)"
    and r4: "fst (ttl_Get (ttl_Sets (ttl_New 5 :: (string, int) ttl_Cache)
      [(''a'', 1, 0), (''b'', 2, 1), (''a'', 3, 2)]) ''a'' 8) = (0, False)"
    by blast+
  from h1 h2 h3 h4 h5 r1 r2 r3 r4 show ?thesis by blast
qed

section \<open>The bulk setters\<close>

text \<open>
  Claim C8, as stated, asks that \<^verbatim>\<open>SetFromMap\<close> make every key of the map retrievable
  with its value in both stores. In a TTL Store whose ttl is \<open>-1\<close> a \<^verbatim>\<open>Get\<close> at the
  time of the writes, or later, returns \<open>(zero, false)\<close>.
\<close>

theorem ttl_SetFromMap_not_retrievable:
  "fst (ttl_Get (ttl_SetFromMap (ttl_New (-1) :: (string, int) ttl_Cache)
                   [(''a'', 1), (''b'', 2)] (clock_at 0)) ''a'' 0) = (0, False) \<and>
   fst (ttl_Get (ttl_SetFromMap (ttl_New (-1) :: (string, int) ttl_Cache)
                   [(''a'', 1), (''b'', 2)] (clock_at 0)) ''a'' 1) = (0, False)"
  by (simp add: ttl_SetFromMap_def ttl_unsafeSet_def ttl_Get_def ttl_unsafeGet_def ttl_New_def
      clock_at_def)

text \<open>
  Claim C8, amended. In both stores \<^verbatim>\<open>SetFromIter(seq)\<close> leaves the store that the
  \<^verbatim>\<open>Set\<close> calls for the pairs of \<open>seq\<close>, in their order and with the same clock readings,
  leave. In the Recency Store \<^verbatim>\<open>SetFromMap(m)\<close> makes \<^verbatim>\<open>Get\<close> return the value of every
  key of \<open>m\<close>, and two enumerations of \<open>m\<close> leave stores with the same values. In the
  TTL Store \<^verbatim>\<open>SetFromMap(m)\<close> stores every key of \<open>m\<close> with its value and the expiry
  \<open>now i + ttl\<close>, \<open>now i\<close> being the clock reading of its iteration, in whatever order
  the map is enumerated; \<^verbatim>\<open>Get\<close> returns the value at times up to that expiry.
\<close>

theorem bulk_setters:
  "lru_SetFromIter c kvs = lru_Sets c kvs \<and>
   ttl_SetFromIter c' kvs' now = ttl_Sets c' (stamp now kvs') \<and>
   (distinct (map fst order) \<and> (k, v) \<in> set order \<longrightarrow>
      fst (lru_Get (lru_SetFromMap c order) k) = (v, True)) \<and>
   (distinct (map fst order) \<and> distinct (map fst order2) \<and> set order = set order2 \<longrightarrow>
      lru_lookup (lru_SetFromMap c order) = lru_lookup (lru_SetFromMap c order2)) \<and>
   (distinct (map fst order') \<and> i < length order' \<and> order' ! i = (k', v') \<longrightarrow>
      ttl_data (ttl_SetFromMap c' order' now) k'
        = Some \<lparr>ttl_value = v', ttl_expireAt = now i + ttl_ttl c'\<rparr> \<and>
      (t \<le> now i + ttl_ttl c' \<longrightarrow>
         fst (ttl_Get (ttl_SetFromMap c' order' now) k' t) = (v', True)))"
proof (intro conjI impI)
  show "lru_SetFromIter c kvs = lru_Sets c kvs" by (rule lru_SetFromIter_Sets)
  show "ttl_SetFromIter c' kvs' now = ttl_Sets c' (stamp now kvs')" by (rule ttl_SetFromIter_Sets)
next
  assume "distinct (map fst order) \<and> (k, v) \<in> set order"
  then have "last_Set order k = Some v" by (simp add: last_Set_distinct)
  then show "fst (lru_Get (lru_SetFromMap c order) k) = (v, True)"
    by (simp add: lru_SetFromMap_def lru_SetFromIter_Sets lru_Get_Sets)
next
  assume "distinct (map fst order) \<and> distinct (map fst order2) \<and> set order = set order2"
  then have "last_Set order = last_Set order2" by (simp add: last_Set_order)
  then show "lru_lookup (lru_SetFromMap c order) = lru_lookup (lru_SetFromMap c order2)"
    by (simp add: lru_SetFromMap_def lru_SetFromIter_Sets lru_Sets_lookup)
next
  assume a: "distinct (map fst order') \<and> i < length order' \<and> order' ! i = (k', v')"
  then have l: "last_Set (stamp now order') k' = Some (v', now i)"
    by (simp add: last_Set_stamp)
  show "ttl_data (ttl_SetFromMap c' order' now) k'
        = Some \<lparr>ttl_value = v', ttl_expireAt = now i + ttl_ttl c'\<rparr>"
    by (simp add: ttl_SetFromMap_def ttl_SetFromIter_Sets ttl_Get_Sets(1)[OF l])
  assume "t \<le> now i + ttl_ttl c'"
  then show "fst (ttl_Get (ttl_SetFromMap c' order' now) k' t) = (v', True)"
    by (simp add: ttl_SetFromMap_def ttl_SetFromIter_Sets ttl_Get_Sets(2)[OF l])
qed

theorem bulk_setters_witness:
  "(distinct (map fst [(''a'', 1::int), (''b'', 2)]) \<and> (''b'', 2) \<in> set [(''a'', 1::int), (''b'', 2)]) \<and>
   (distinct (map fst [(''a'', 1::int), (''b'', 2)]) \<and> distinct (map fst [(''b'', 2::int), (''a'', 1)]) \<and>
      set [(''a'', 1::int), (''b'', 2)] = set [(''b'', 2), (''a'', 1)]) \<and>
   (distinct (map fst [(''a'', 1::int), (''b'', 2)]) \<and> 1 < length [(''a'', 1::int), (''b'', 2)] \<and>
      [(''a'', 1::int), (''b'', 2)] ! 1 = (''b'', 2)) \<and>
   (3::int) \<le> clock_at 0 1 + ttl_ttl (ttl_New 5 :: (string, int) ttl_Cache) \<and>
   fst (lru_Get (lru_SetFromMap (lru_New 0 :: (string, int) lru_Cache) [(''a'', 1), (''b'', 2)]) ''b'')
     = (2, True) \<and>
   lru_lookup (lru_SetFromMap (lru_New 0 :: (string, int) lru_Cache) [(''a'', 1), (''b'', 2)])
     = lru_lookup (lru_SetFromMap (lru_New 0) [(''b'', 2), (''a'', 1)]) \<and>
   fst (ttl_Get (ttl_SetFromMap (ttl_New 5 :: (string, int) ttl_Cache) [(''a'', 1), (''b'', 2)]
                   (clock_at 0)) ''b'' 3) = (2, True)"
proof -
  note inst = bulk_setters [where c = "lru_New 0 :: (string, int) lru_Cache"
      and order = "[(''a'', 1), (''b'', 2)]" and ?order2.0 = "[(''b'', 2), (''a'', 1)]"
      and k = "''b''" and v = 2 and c' = "ttl_New 5 :: (string, int) ttl_Cache"
      and order' = "[(''a'', 1), (''b'', 2)]" and now = "clock_at 0" and i = 1 and k' = "''b''"
      and v' = 2 and t = 3, THEN conjunct2, THEN conjunct2]
  have h1: "distinct (map fst [(''a'', 1::int), (''b'', 2)]) \<and>
            (''b'', 2) \<in> set [(''a'', 1::int), (''b'', 2)]" by simp
  have h2: "distinct (map fst [(''a'', 1::int), (''b'', 2)]) \<and>
            distinct (map fst [(''b'', 2::int), (''a'', 1)]) \<and>
            set [(''a'', 1::int), (''b'', 2)] = set [(''b'', 2), (''a'', 1)]" by auto
  have h3: "distinct (map fst [(''a'', 1::int), (''b'', 2)]) \<and>
            1 < length [(''a'', 1::int), (''b'', 2)] \<and>
            [(''a'', 1::int), (''b'', 2)] ! 1 = (''b'', 2)" by simp
  have h4: "(3::int) \<le> clock_at 0 1 + ttl_ttl (ttl_New 5 :: (string, int) ttl_Cache)"
    by (simp add: clock_at_def ttl_New_def)
  note r1 = inst [THEN conjunct1, THEN mp, OF h1]
  note r2 = inst [THEN conjunct2, THEN conjunct1, THEN mp, OF h2]
  note r3 = inst [THEN conjunct2, THEN conjunct2, THEN mp, OF h3, THEN conjunct2, THEN mp, OF h4]
  from h1 h2 h3 h4 r1 r2 r3 show ?thesis by blast
qed

end
